theory Spec2Isabelle
  imports Main "HOL-Library.AList"
begin

section \<open>The crossword constraint solver of \<^verbatim>\<open>src/crossword/generate.py\<close>\<close>

text \<open>
  Conventions of the embedding.
  \<^item> A Python call that may raise returns an \<open>option\<close>: \<open>None\<close> stands for a raised
    exception (\<^verbatim>\<open>KeyError\<close> of a dictionary or set, \<^verbatim>\<open>IndexError\<close> of a string),
    \<open>Some r\<close> for a normal return of \<open>r\<close>. A Python \<^verbatim>\<open>None\<close> that is returned as a value
    is an inner \<open>option\<close>.
  \<^item> A Python \<^verbatim>\<open>dict\<close> is an association list in insertion order; a Python \<^verbatim>\<open>set\<close> is the
    list of its elements in iteration order. Removing an element keeps the order of the others.
  \<^item> Methods that mutate \<^verbatim>\<open>self.domains\<close> take the domain store and return the new one.
    Every slot has a set of its own, as \<^verbatim>\<open>__init__\<close> makes them (\<^verbatim>\<open>words.copy()\<close>): no two
    entries of the store share one set.
\<close>

subsection \<open>Python containers\<close>

definition dict_get :: "('k \<times> 'v) list \<Rightarrow> 'k \<Rightarrow> 'v option" where
  "dict_get d k = map_of d k"

definition dict_contains :: "('k \<times> 'v) list \<Rightarrow> 'k \<Rightarrow> bool" where
  "dict_contains d k = (map_of d k \<noteq> None)"

definition dict_set :: "('k \<times> 'v) list \<Rightarrow> 'k \<Rightarrow> 'v \<Rightarrow> ('k \<times> 'v) list" where
  "dict_set d k v = AList.update k v d"

definition dict_del :: "('k \<times> 'v) list \<Rightarrow> 'k \<Rightarrow> ('k \<times> 'v) list option" where
  "dict_del d k = (if dict_contains d k then Some (AList.delete k d) else None)"

definition set_remove :: "'a list \<Rightarrow> 'a \<Rightarrow> 'a list option" where
  "set_remove xs x = (if x \<in> set xs then Some (remove1 x xs) else None)"

definition str_index :: "string \<Rightarrow> nat \<Rightarrow> char option" where
  "str_index w n = (if n < length w then Some (w ! n) else None)"

subsection \<open>Data model\<close>

datatype direction = ACROSS | DOWN

text \<open>
  Modelled from the spec: the class \<^verbatim>\<open>Variable\<close> of \<^verbatim>\<open>crossword.py\<close> is not among the
  sources. A slot has a start row and column, an orientation and a length, and two slots are
  equal iff these four agree.
\<close>

record variable =
  var_i :: nat
  var_j :: nat
  var_direction :: direction
  var_length :: nat

text \<open>
  Modelled from the spec: the class \<^verbatim>\<open>Crossword\<close> of \<^verbatim>\<open>crossword.py\<close> is not among the
  sources. \<^verbatim>\<open>generate.py\<close> reads its attributes \<^verbatim>\<open>variables\<close> (a set of slots), \<^verbatim>\<open>words\<close>
  (a set of strings) and \<^verbatim>\<open>overlaps\<close> (a dictionary from ordered pairs of slots to an
  optional pair of offsets), and calls its method \<^verbatim>\<open>neighbors\<close>.
\<close>

record crossword =
  variables :: "variable list"
  words :: "string list"
  overlaps :: "((variable \<times> variable) \<times> (nat \<times> nat) option) list"

type_synonym domains = "(variable \<times> string list) list"
type_synonym assignment = "(variable \<times> string) list"

text \<open>
  Modelled from the spec: \<^verbatim>\<open>Crossword.neighbors\<close> is not among the sources. The neighbours of
  a slot are the other slots that have an overlap with it.
\<close>

definition neighbors :: "crossword \<Rightarrow> variable \<Rightarrow> variable list" where
  "neighbors c var =
     filter (\<lambda>v. v \<noteq> var \<and> (case map_of (overlaps c) (v, var) of Some (Some p) \<Rightarrow> True | _ \<Rightarrow> False))
       (variables c)"

text \<open>\<^verbatim>\<open>CrosswordCreator.__init__\<close>: every slot starts with a copy of the whole vocabulary.\<close>

definition CrosswordCreator :: "crossword \<Rightarrow> domains" where
  "CrosswordCreator c = map (\<lambda>var. (var, words c)) (variables c)"

subsection \<open>Node consistency\<close>

text \<open>The inner loop of \<^verbatim>\<open>enforce_node_consistency\<close>, over the snapshot \<^verbatim>\<open>list(elements)\<close>.\<close>

fun enforce_node_elements :: "variable \<Rightarrow> string list \<Rightarrow> domains \<Rightarrow> domains option" where
  "enforce_node_elements var [] doms = Some doms"
| "enforce_node_elements var (element # rest) doms =
     (if length element \<noteq> var_length var then
        (case dict_get doms var of None \<Rightarrow> None
         | Some dv \<Rightarrow>
            (case set_remove dv element of None \<Rightarrow> None
             | Some dv' \<Rightarrow> enforce_node_elements var rest (dict_set doms var dv')))
      else enforce_node_elements var rest doms)"

text \<open>The outer loop, over the snapshot \<^verbatim>\<open>list(self.domains.items())\<close>.\<close>

fun enforce_node_items :: "(variable \<times> string list) list \<Rightarrow> domains \<Rightarrow> domains option" where
  "enforce_node_items [] doms = Some doms"
| "enforce_node_items ((var, elements) # rest) doms =
     (case enforce_node_elements var elements doms of None \<Rightarrow> None
      | Some doms' \<Rightarrow> enforce_node_items rest doms')"

definition enforce_node_consistency :: "domains \<Rightarrow> domains option" where
  "enforce_node_consistency doms = enforce_node_items doms doms"

subsection \<open>Arc consistency\<close>

text \<open>
  The innermost loop of \<^verbatim>\<open>revise\<close>: is there a word of \<^verbatim>\<open>self.domains[y]\<close> that agrees with
  \<^verbatim>\<open>possible_word\<close> at the overlap? The loop stops at the first match.
\<close>

fun revise_possible :: "string \<Rightarrow> nat \<times> nat \<Rightarrow> string list \<Rightarrow> bool option" where
  "revise_possible possible_word overlap [] = Some False"
| "revise_possible possible_word overlap (possible_y_word # rest) =
     (case str_index possible_word (fst overlap) of None \<Rightarrow> None
      | Some a \<Rightarrow>
         (case str_index possible_y_word (snd overlap) of None \<Rightarrow> None
          | Some b \<Rightarrow> if a = b then Some True else revise_possible possible_word overlap rest))"

text \<open>The loop of \<^verbatim>\<open>revise\<close> over the snapshot \<^verbatim>\<open>list(self.domains[x])\<close>.\<close>

fun revise_words ::
  "variable \<Rightarrow> variable \<Rightarrow> nat \<times> nat \<Rightarrow> string list \<Rightarrow> domains \<Rightarrow> bool \<Rightarrow> (bool \<times> domains) option"
where
  "revise_words x y overlap [] doms revised = Some (revised, doms)"
| "revise_words x y overlap (possible_word # rest) doms revised =
     (case dict_get doms y of None \<Rightarrow> None
      | Some dy \<Rightarrow>
         (case revise_possible possible_word overlap dy of None \<Rightarrow> None
          | Some possible \<Rightarrow>
             if \<not> possible then
               (case dict_get doms x of None \<Rightarrow> None
                | Some dx \<Rightarrow>
                   (case set_remove dx possible_word of None \<Rightarrow> None
                    | Some dx' \<Rightarrow> revise_words x y overlap rest (dict_set doms x dx') True))
             else revise_words x y overlap rest doms revised))"

definition revise :: "crossword \<Rightarrow> domains \<Rightarrow> variable \<Rightarrow> variable \<Rightarrow> (bool \<times> domains) option" where
  "revise c doms x y =
     (case dict_get (overlaps c) (x, y) of None \<Rightarrow> None
      | Some None \<Rightarrow> Some (False, doms)
      | Some (Some overlap) \<Rightarrow>
         (case dict_get doms x of None \<Rightarrow> None
          | Some dx \<Rightarrow> revise_words x y overlap dx doms False))"

text \<open>
  One iteration of the \<^verbatim>\<open>while\<close> loop of \<^verbatim>\<open>ac3\<close> on the arc \<open>(x, y)\<close> just taken from the
  queue, \<open>queue\<close> being the rest of it. \<open>Inl\<close> is a \<^verbatim>\<open>return\<close> out of the loop, \<open>Inr\<close> the
  domains and the queue the next iteration starts with.
\<close>

definition ac3_iteration ::
  "crossword \<Rightarrow> domains \<Rightarrow> variable \<times> variable \<Rightarrow> (variable \<times> variable) list \<Rightarrow>
     ((bool \<times> domains) + (domains \<times> (variable \<times> variable) list)) option"
where
  "ac3_iteration c doms arc queue =
     (case revise c doms (fst arc) (snd arc) of None \<Rightarrow> None
      | Some (revised, doms') \<Rightarrow>
         if revised then
           (case dict_get doms' (fst arc) of None \<Rightarrow> None
            | Some dx \<Rightarrow>
               if length dx = 0 then Some (Inl (False, doms'))
               else Some (Inr (doms', queue @
                      map (\<lambda>neighbor. (neighbor, fst arc))
                        (filter (\<lambda>neighbor. \<not> neighbor = snd arc) (neighbors c (fst arc))))))
         else Some (Inr (doms', queue)))"

text \<open>The total number of candidate words in the store: the measure under which the loop of \<^verbatim>\<open>ac3\<close> terminates.\<close>

definition dom_size :: "domains \<Rightarrow> nat" where
  "dom_size doms = sum_list (map (\<lambda>p. length (snd p)) doms)"

lemma dom_size_update:
  "map_of doms x = Some dx \<Longrightarrow> dom_size (AList.update x dx' doms) + length dx = dom_size doms + length dx'"
  by (induction doms) (auto simp: dom_size_def)

lemma revise_words_size:
  "revise_words x y ov ws doms revised = Some (b, doms') \<Longrightarrow>
     dom_size doms' \<le> dom_size doms \<and> (b \<longrightarrow> revised \<or> dom_size doms' < dom_size doms)"
proof (induction ws arbitrary: doms revised)
  case Nil then show ?case by simp
next
  case (Cons w ws)
  from Cons.prems obtain dy possible where dy: "dict_get doms y = Some dy"
    and p: "revise_possible w ov dy = Some possible"
    by (auto split: option.splits)
  show ?case
  proof (cases possible)
    case True
    with Cons.prems dy p have "revise_words x y ov ws doms revised = Some (b, doms')" by simp
    from Cons.IH[OF this] show ?thesis .
  next
    case False
    with Cons.prems dy p obtain dx where dx: "map_of doms x = Some dx" and mem: "w \<in> set dx"
      and r: "revise_words x y ov ws (AList.update x (remove1 w dx) doms) True = Some (b, doms')"
      by (auto split: option.splits if_splits simp: dict_get_def set_remove_def dict_set_def)
    from mem have "length (remove1 w dx) < length dx"
      by (simp add: length_remove1) (cases dx, auto)
    with dom_size_update[OF dx, of "remove1 w dx"]
    have "dom_size (AList.update x (remove1 w dx) doms) < dom_size doms" by linarith
    with Cons.IH[OF r] show ?thesis by auto
  qed
qed

lemma revise_size:
  "revise c doms x y = Some (b, doms') \<Longrightarrow>
     dom_size doms' \<le> dom_size doms \<and> (b \<longrightarrow> dom_size doms' < dom_size doms)"
  using revise_words_size[of x y _ _ doms False b doms']
  by (auto simp: revise_def split: option.splits)

lemma ac3_iteration_decreases:
  "ac3_iteration c doms arc queue = Some (Inr (doms', queue')) \<Longrightarrow>
     dom_size doms' < dom_size doms \<or> (dom_size doms' = dom_size doms \<and> queue' = queue)"
  using revise_size[of c doms "fst arc" "snd arc"]
  by (auto simp: ac3_iteration_def split: option.splits if_splits prod.splits)

text \<open>The \<^verbatim>\<open>while not queue.empty()\<close> loop of \<^verbatim>\<open>ac3\<close>; the queue is first-in first-out.\<close>

function ac3_loop ::
  "crossword \<Rightarrow> domains \<Rightarrow> (variable \<times> variable) list \<Rightarrow> (bool \<times> domains) option"
where
  "ac3_loop c doms [] = Some (True, doms)"
| "ac3_loop c doms (arc # queue) =
     (case ac3_iteration c doms arc queue of None \<Rightarrow> None
      | Some (Inl r) \<Rightarrow> Some r
      | Some (Inr (doms', queue')) \<Rightarrow> ac3_loop c doms' queue')"
  by pat_completeness auto
termination
proof (relation "measures [\<lambda>(c, doms, queue). dom_size doms, \<lambda>(c, doms, queue). length queue]")
  show "wf (measures [\<lambda>(c, doms, queue). dom_size doms, \<lambda>(c, doms, queue). length queue])" by simp
next
  fix c doms arc queue x2 b x y
  assume "ac3_iteration c doms arc queue = Some x2" "x2 = Inr b" "(x, y) = b"
  then show "((c, x, y), c, doms, arc # queue) \<in> measures [\<lambda>(c, doms, queue). dom_size doms, \<lambda>(c, doms, queue). length queue]"
    using ac3_iteration_decreases[of c doms arc queue x y] by auto
qed


text \<open>
  \<^verbatim>\<open>ac3\<close>. With \<^verbatim>\<open>arcs=None\<close> the queue starts with every key of \<^verbatim>\<open>crossword.overlaps\<close>: the
  test \<^verbatim>\<open>var_par is not None\<close> is on the key, a pair, and so always passes, also for the pairs
  of slots whose overlap is \<^verbatim>\<open>None\<close>.
\<close>

definition ac3 ::
  "crossword \<Rightarrow> domains \<Rightarrow> (variable \<times> variable) list option \<Rightarrow> (bool \<times> domains) option"
where
  "ac3 c doms arcs =
     (case arcs of None \<Rightarrow> ac3_loop c doms (map fst (overlaps c))
      | Some given \<Rightarrow> ac3_loop c doms given)"

text \<open>
  The loop of \<^verbatim>\<open>ac3\<close> observed for at most \<open>n\<close> iterations: \<open>None\<close> when it is still running
  after \<open>n\<close> iterations, \<open>Some r\<close> when it has ended within them, \<open>r\<close> being what \<^verbatim>\<open>ac3\<close> then
  returns (\<open>r = None\<close>: an exception).
\<close>

fun ac3_within ::
  "nat \<Rightarrow> crossword \<Rightarrow> domains \<Rightarrow> (variable \<times> variable) list \<Rightarrow> (bool \<times> domains) option option"
where
  "ac3_within n c doms [] = Some (Some (True, doms))"
| "ac3_within 0 c doms (arc # queue) = None"
| "ac3_within (Suc n) c doms (arc # queue) =
     (case ac3_iteration c doms arc queue of None \<Rightarrow> Some None
      | Some (Inl r) \<Rightarrow> Some (Some r)
      | Some (Inr (doms', queue')) \<Rightarrow> ac3_within n c doms' queue')"

subsection \<open>Search\<close>

definition assignment_complete :: "crossword \<Rightarrow> assignment \<Rightarrow> bool" where
  "assignment_complete c assignment = list_all (\<lambda>var. dict_contains assignment var) (variables c)"

text \<open>
  The inner loop of \<^verbatim>\<open>consistent\<close> over \<^verbatim>\<open>assignment.items()\<close>, for one entry \<open>(var, word)\<close> of
  the outer loop. \<open>Some False\<close> is the \<^verbatim>\<open>return False\<close> of the method, \<open>Some True\<close> the end of the
  loop. Assigned values are strings, so the tests \<^verbatim>\<open>is not None\<close> on them always pass.
\<close>

fun consistent_with :: "crossword \<Rightarrow> variable \<Rightarrow> string \<Rightarrow> assignment \<Rightarrow> bool option" where
  "consistent_with c var word [] = Some True"
| "consistent_with c var word ((y, y_word) # rest) =
     (if var \<noteq> y then
        if word = y_word then Some False
        else
          (case dict_get (overlaps c) (var, y) of None \<Rightarrow> None
           | Some None \<Rightarrow> consistent_with c var word rest
           | Some (Some overlap) \<Rightarrow>
              (case str_index word (fst overlap) of None \<Rightarrow> None
               | Some a \<Rightarrow>
                  (case str_index y_word (snd overlap) of None \<Rightarrow> None
                   | Some b \<Rightarrow>
                      if a \<noteq> b then Some False else consistent_with c var word rest)))
      else consistent_with c var word rest)"

fun consistent_items :: "crossword \<Rightarrow> assignment \<Rightarrow> assignment \<Rightarrow> bool option" where
  "consistent_items c [] assignment = Some True"
| "consistent_items c ((var, word) # rest) assignment =
     (if length word \<noteq> var_length var then Some False
      else
        (case consistent_with c var word assignment of None \<Rightarrow> None
         | Some ok \<Rightarrow> if ok then consistent_items c rest assignment else Some False))"

definition consistent :: "crossword \<Rightarrow> assignment \<Rightarrow> bool option" where
  "consistent c assignment = consistent_items c assignment assignment"

text \<open>
  \<^verbatim>\<open>order_domain_values\<close>: the innermost loop, over \<^verbatim>\<open>self.domains[other_var]\<close>, counts the
  words that disagree with \<^verbatim>\<open>domain_value\<close> at the overlap.
\<close>

fun order_count :: "string \<Rightarrow> nat \<times> nat \<Rightarrow> string list \<Rightarrow> nat \<Rightarrow> nat option" where
  "order_count domain_value overlap [] num_eliminated = Some num_eliminated"
| "order_count domain_value overlap (other_var_possible_value # rest) num_eliminated =
     (case str_index domain_value (fst overlap) of None \<Rightarrow> None
      | Some a \<Rightarrow>
         (case str_index other_var_possible_value (snd overlap) of None \<Rightarrow> None
          | Some b \<Rightarrow>
             order_count domain_value overlap rest
               (if a \<noteq> b then num_eliminated + 1 else num_eliminated)))"

text \<open>The loop over \<^verbatim>\<open>self.crossword.variables\<close>.\<close>

fun order_others ::
  "crossword \<Rightarrow> domains \<Rightarrow> variable \<Rightarrow> assignment \<Rightarrow> string \<Rightarrow> variable list \<Rightarrow> nat \<Rightarrow> nat option"
where
  "order_others c doms var assignment domain_value [] num_eliminated = Some num_eliminated"
| "order_others c doms var assignment domain_value (other_var # rest) num_eliminated =
     (if \<not> dict_contains assignment other_var \<and> other_var \<noteq> var then
        (case dict_get (overlaps c) (var, other_var) of None \<Rightarrow> None
         | Some None \<Rightarrow> order_others c doms var assignment domain_value rest num_eliminated
         | Some (Some overlap) \<Rightarrow>
            (case dict_get doms other_var of None \<Rightarrow> None
             | Some d \<Rightarrow>
                (case order_count domain_value overlap d num_eliminated of None \<Rightarrow> None
                 | Some n \<Rightarrow> order_others c doms var assignment domain_value rest n)))
      else order_others c doms var assignment domain_value rest num_eliminated)"

text \<open>The loop over \<^verbatim>\<open>self.domains[var]\<close>, which fills the dictionary \<^verbatim>\<open>domain_values\<close>.\<close>

fun order_values ::
  "crossword \<Rightarrow> domains \<Rightarrow> variable \<Rightarrow> assignment \<Rightarrow> string list \<Rightarrow> (string \<times> nat) list \<Rightarrow>
     (string \<times> nat) list option"
where
  "order_values c doms var assignment [] domain_values = Some domain_values"
| "order_values c doms var assignment (domain_value # rest) domain_values =
     (case order_others c doms var assignment domain_value (variables c) 0 of None \<Rightarrow> None
      | Some num_eliminated \<Rightarrow>
         order_values c doms var assignment rest (dict_set domain_values domain_value num_eliminated))"

text \<open>
  \<^verbatim>\<open>sorted(domain_values, key=lambda value: domain_values[value])\<close> sorts the keys of the
  dictionary by their entry; the sort is stable, as \<open>sort_key\<close> is.
\<close>

definition order_domain_values ::
  "crossword \<Rightarrow> domains \<Rightarrow> variable \<Rightarrow> assignment \<Rightarrow> string list option"
where
  "order_domain_values c doms var assignment =
     (case dict_get doms var of None \<Rightarrow> None
      | Some d \<Rightarrow>
         (case order_values c doms var assignment d [] of None \<Rightarrow> None
          | Some domain_values \<Rightarrow> Some (map fst (sort_key snd domain_values))))"

text \<open>The loop of \<^verbatim>\<open>select_unassigned_variable\<close> over \<^verbatim>\<open>self.crossword.variables\<close>.\<close>

fun select_scan ::
  "domains \<Rightarrow> assignment \<Rightarrow> variable list \<Rightarrow> nat \<Rightarrow> variable list \<Rightarrow> (nat \<times> variable list) option"
where
  "select_scan doms assignment [] smallest_domain current_best = Some (smallest_domain, current_best)"
| "select_scan doms assignment (var # rest) smallest_domain current_best =
     (if \<not> dict_contains assignment var then
        (case dict_get doms var of None \<Rightarrow> None
         | Some d \<Rightarrow>
            let domain_size = length d in
            if domain_size < smallest_domain then
              select_scan doms assignment rest domain_size [var]
            else if domain_size = smallest_domain then
              select_scan doms assignment rest smallest_domain (current_best @ [var])
            else select_scan doms assignment rest smallest_domain current_best)
      else select_scan doms assignment rest smallest_domain current_best)"

text \<open>
  \<^verbatim>\<open>select_unassigned_variable\<close>. The result \<open>Some None\<close> is the \<^verbatim>\<open>return None\<close> of the method.
  \<^verbatim>\<open>sorted(degrees, key=..., reverse=True)\<close> is a stable sort in descending order of the degree.
\<close>

definition select_unassigned_variable ::
  "crossword \<Rightarrow> domains \<Rightarrow> assignment \<Rightarrow> variable option option"
where
  "select_unassigned_variable c doms assignment =
     (case select_scan doms assignment (variables c) 10000000000 [] of None \<Rightarrow> None
      | Some (smallest_domain, current_best) \<Rightarrow>
         if length current_best = 0 then Some None
         else if length current_best = 1 then Some (Some (current_best ! 0))
         else
           let degrees = fold (\<lambda>var degrees. dict_set degrees var (length (neighbors c var)))
                           current_best []
           in Some (Some (fst (sort_key (\<lambda>p. - int (snd p)) degrees ! 0))))"

text \<open>
  The state of the search: the domain store of the creator, the dictionary \<^verbatim>\<open>assignment\<close> that
  \<^verbatim>\<open>backtrack\<close> mutates in place, and a counter of the calls of \<^verbatim>\<open>backtrack\<close>, which is not data
  of the program.
\<close>

record search =
  search_domains :: domains
  search_assignment :: assignment
  backtrack_calls :: nat


lemma select_scan_subset:
  "select_scan doms a vars smallest best = Some (m, best') \<Longrightarrow>
     set best' \<subseteq> set best \<union> {v \<in> set vars. \<not> dict_contains a v}"
proof (induction vars arbitrary: smallest best)
  case Nil then show ?case by simp
next
  case (Cons v vars)
  show ?case
  proof (cases "dict_contains a v")
    case True
    with Cons.prems have "select_scan doms a vars smallest best = Some (m, best')" by simp
    from Cons.IH[OF this] show ?thesis by auto
  next
    case False
    with Cons.prems obtain d where d: "dict_get doms v = Some d" by (auto split: option.splits)
    consider "length d < smallest" | "length d = smallest" | "length d > smallest" by linarith
    then show ?thesis
    proof cases
      case 1
      with Cons.prems False d have "select_scan doms a vars (length d) [v] = Some (m, best')"
        by (simp add: Let_def)
      from Cons.IH[OF this] False show ?thesis by auto
    next
      case 2
      with Cons.prems False d have "select_scan doms a vars smallest (best @ [v]) = Some (m, best')"
        by (simp add: Let_def)
      from Cons.IH[OF this] False show ?thesis by auto
    next
      case 3
      with Cons.prems False d have "select_scan doms a vars smallest best = Some (m, best')"
        by (simp add: Let_def)
      from Cons.IH[OF this] show ?thesis by auto
    qed
  qed
qed

lemma update_key_set: "fst ` set (AList.update k v al) = insert k (fst ` set al)"
proof -
  have "set (map fst (AList.update k v al)) = insert k (set (map fst al))"
    by (simp only: update_keys) auto
  then show ?thesis by simp
qed

lemma degrees_keys:
  "fst ` set (fold (\<lambda>var degrees. dict_set degrees var (f var)) best acc) = fst ` set acc \<union> set best"
  by (induction best arbitrary: acc) (simp_all add: dict_set_def update_key_set)

lemma select_unassigned_variable_sound:
  assumes "select_unassigned_variable c doms a = Some (Some var)"
  shows "var \<in> set (variables c) \<and> \<not> dict_contains a var"
proof -
  from assms obtain m best where scan: "select_scan doms a (variables c) 10000000000 [] = Some (m, best)"
    by (auto simp: select_unassigned_variable_def split: option.splits)
  from select_scan_subset[OF scan]
  have sub: "set best \<subseteq> {v \<in> set (variables c). \<not> dict_contains a v}" by simp
  have "var \<in> set best"
  proof (cases "length best = 1")
    case True
    with assms scan have "var = best ! 0"
      by (auto simp: select_unassigned_variable_def split: if_splits)
    with True show ?thesis by (metis nth_mem zero_less_one)
  next
    case False
    define degrees where "degrees = fold (\<lambda>var degrees. dict_set degrees var (length (neighbors c var))) best []"
    from False assms scan have ne: "best \<noteq> []" and
      var: "var = fst (sort_key (\<lambda>p. - int (snd p)) degrees ! 0)"
      by (auto simp: select_unassigned_variable_def degrees_def Let_def split: if_splits)
    have keys: "fst ` set degrees = set best"
      unfolding degrees_def by (simp add: degrees_keys)
    with ne have "degrees \<noteq> []" by auto
    then have "sort_key (\<lambda>p. - int (snd p)) degrees ! 0 \<in> set (sort_key (\<lambda>p. - int (snd p)) degrees)"
      by (intro nth_mem) (simp add: length_greater_0_conv[symmetric] del: length_greater_0_conv)
    then have "sort_key (\<lambda>p. - int (snd p)) degrees ! 0 \<in> set degrees" by simp
    with var keys show ?thesis by auto
  qed
  with sub show ?thesis by auto
qed

text \<open>
  \<^verbatim>\<open>backtrack\<close> and its \<^verbatim>\<open>for\<close> loop over the ordered candidate words. A result
  \<open>Some (Some a, s)\<close> is \<^verbatim>\<open>return assignment\<close>, the dictionary itself; \<open>Some (None, s)\<close> is
  \<^verbatim>\<open>return None\<close>; \<open>s\<close> is the state at the return. When \<^verbatim>\<open>select_unassigned_variable\<close>
  returns \<^verbatim>\<open>None\<close>, \<^verbatim>\<open>order_domain_values\<close> raises on \<^verbatim>\<open>self.domains[None]\<close>.
\<close>

function backtrack :: "crossword \<Rightarrow> search \<Rightarrow> (assignment option \<times> search) option"
  and backtrack_words ::
    "crossword \<Rightarrow> variable \<Rightarrow> string list \<Rightarrow> search \<Rightarrow> (assignment option \<times> search) option"
where
  "backtrack c s =
     (if assignment_complete c (search_assignment s) then
        Some (Some (search_assignment s), s\<lparr>backtrack_calls := backtrack_calls s + 1\<rparr>)
      else
        (case select_unassigned_variable c (search_domains s) (search_assignment s) of
           None \<Rightarrow> None
         | Some None \<Rightarrow> None
         | Some (Some var) \<Rightarrow>
            (case order_domain_values c (search_domains s) var (search_assignment s) of
               None \<Rightarrow> None
             | Some ordered \<Rightarrow>
                backtrack_words c var ordered (s\<lparr>backtrack_calls := backtrack_calls s + 1\<rparr>))))"
| "backtrack_words c var [] s = Some (None, s)"
| "backtrack_words c var (possible_word # rest) s =
     (let s1 = s\<lparr>search_assignment := dict_set (search_assignment s) var possible_word\<rparr> in
      case consistent c (search_assignment s1) of None \<Rightarrow> None
      | Some ok \<Rightarrow>
         if ok then
           (case backtrack c s1 of None \<Rightarrow> None
            | Some (Some result, s2) \<Rightarrow> Some (Some result, s2)
            | Some (None, s2) \<Rightarrow>
               (case dict_del (search_assignment s2) var of None \<Rightarrow> None
                | Some a \<Rightarrow> backtrack_words c var rest (s2\<lparr>search_assignment := a\<rparr>)))
         else
           (case dict_del (search_assignment s1) var of None \<Rightarrow> None
            | Some a \<Rightarrow> backtrack_words c var rest (s1\<lparr>search_assignment := a\<rparr>)))"
  by pat_completeness auto


lemma dict_contains_set [simp]: "dict_contains (dict_set a k w) v \<longleftrightarrow> v = k \<or> dict_contains a v"
  by (simp add: dict_contains_def dict_set_def update_conv')

lemma dict_contains_delete [simp]: "dict_contains (AList.delete k a) v \<longleftrightarrow> v \<noteq> k \<and> dict_contains a v"
  by (simp add: dict_contains_def delete_conv')

lemma dict_contains_keys: "dict_contains a k \<longleftrightarrow> k \<in> fst ` set a"
  by (simp add: dict_contains_def map_of_eq_None_iff)

lemma dict_del_set_fresh:
  "\<not> dict_contains a k \<Longrightarrow> dict_del (dict_set a k w) k = Some a"
  by (simp add: dict_del_def) (simp add: dict_set_def delete_update_same dict_contains_keys)

lemma dict_del_Some: "dict_del a k = Some a' \<Longrightarrow> a' = AList.delete k a"
  by (simp add: dict_del_def split: if_splits)

lemma backtrack_restores_partial:
  "backtrack_backtrack_words_dom (Inl (c, s)) \<Longrightarrow>
     backtrack c s = Some (None, s') \<Longrightarrow> search_assignment s' = search_assignment s"
  "backtrack_backtrack_words_dom (Inr (c, var, ws, s)) \<Longrightarrow>
     \<not> dict_contains (search_assignment s) var \<Longrightarrow>
     backtrack_words c var ws s = Some (None, s'') \<Longrightarrow> search_assignment s'' = search_assignment s"
proof (induct c s and c var ws s arbitrary: s' and s'' rule: backtrack_backtrack_words.pinduct)
  case (1 c s)
  from "1.prems" "1.hyps"(1) have nc: "\<not> assignment_complete c (search_assignment s)"
    by (auto simp: backtrack.psimps split: if_splits)
  with "1.prems" "1.hyps"(1) obtain var ordered where
    sel: "select_unassigned_variable c (search_domains s) (search_assignment s) = Some (Some var)"
    and ord: "order_domain_values c (search_domains s) var (search_assignment s) = Some ordered"
    and res: "backtrack_words c var ordered (s\<lparr>backtrack_calls := backtrack_calls s + 1\<rparr>) = Some (None, s')"
    by (auto simp: backtrack.psimps split: option.splits)
  from select_unassigned_variable_sound[OF sel] have "\<not> dict_contains (search_assignment s) var" by simp
  with "1.hyps"(2)[OF nc sel refl ord _ res] show ?case by simp
next
  case (2 c var s)
  then show ?case by (simp add: backtrack_words.psimps)
next
  case (3 c var w rest s)
  define s1 where "s1 = s\<lparr>search_assignment := dict_set (search_assignment s) var w\<rparr>"
  from "3.prems"(2) "3.hyps"(1) obtain ok where ok: "consistent c (search_assignment s1) = Some ok"
    by (auto simp: backtrack_words.psimps s1_def Let_def split: option.splits)
  have del1: "dict_del (search_assignment s1) var = Some (search_assignment s)"
    using "3.prems"(1) by (simp add: s1_def dict_del_set_fresh)
  show ?case
  proof (cases ok)
    case False
    with "3.prems"(2) "3.hyps"(1) ok del1
    have r: "backtrack_words c var rest (s1\<lparr>search_assignment := search_assignment s\<rparr>) = Some (None, s'')"
      by (simp add: backtrack_words.psimps s1_def[symmetric] Let_def)
    from "3.hyps"(4)[OF s1_def ok _ del1 _ r] False "3.prems"(1) show ?thesis by simp
  next
    case True
    with "3.prems"(2) "3.hyps"(1) ok obtain s2 where
      b: "backtrack c s1 = Some (None, s2)"
      by (auto simp: backtrack_words.psimps s1_def[symmetric] Let_def split: option.splits prod.splits)
    from "3.hyps"(2)[OF s1_def ok True b] have eq: "search_assignment s2 = search_assignment s1" .
    with del1 have del2: "dict_del (search_assignment s2) var = Some (search_assignment s)" by simp
    with "3.prems"(2) "3.hyps"(1) ok True b
    have r: "backtrack_words c var rest (s2\<lparr>search_assignment := search_assignment s\<rparr>) = Some (None, s'')"
      by (simp add: backtrack_words.psimps s1_def[symmetric] Let_def)
    from "3.hyps"(3)[OF s1_def ok True b refl refl del2 _ r] "3.prems"(1) show ?thesis by simp
  qed
qed

text \<open>The number of slots without an entry in the assignment: the measure of the recursion of \<^verbatim>\<open>backtrack\<close>.\<close>

definition unassigned :: "crossword \<Rightarrow> assignment \<Rightarrow> nat" where
  "unassigned c a = card {v \<in> set (variables c). \<not> dict_contains a v}"

lemma unassigned_set_delete:
  "unassigned c (AList.delete var (dict_set a var w)) = unassigned c (AList.delete var a)"
  unfolding unassigned_def by (rule arg_cong[where f=card]) auto

lemma unassigned_set:
  "var \<in> set (variables c) \<Longrightarrow> unassigned c (AList.delete var a) = Suc (unassigned c (dict_set a var w))"
proof -
  assume v: "var \<in> set (variables c)"
  have "{v \<in> set (variables c). \<not> dict_contains (AList.delete var a) v}
        = insert var {v \<in> set (variables c). \<not> dict_contains (dict_set a var w) v}"
    using v by auto
  then show ?thesis by (simp add: unassigned_def)
qed

lemma unassigned_set_other:
  "var \<notin> set (variables c) \<Longrightarrow> unassigned c (dict_set a var w) = unassigned c (AList.delete var a)"
  unfolding unassigned_def by (rule arg_cong[where f=card]) auto

lemma unassigned_delete_fresh:
  "\<not> dict_contains a var \<Longrightarrow> unassigned c (AList.delete var a) = unassigned c a"
  unfolding unassigned_def by (rule arg_cong[where f=card]) auto

termination backtrack
proof (relation "measures
    [\<lambda>x. case x of Inl (c, s) \<Rightarrow> 2 * unassigned c (search_assignment s) + 1
          | Inr (c, var, ws, s) \<Rightarrow> 2 * unassigned c (AList.delete var (search_assignment s))
                                       + (if var \<in> set (variables c) then 0 else 2),
     \<lambda>x. case x of Inl (c, s) \<Rightarrow> 0 | Inr (c, var, ws, s) \<Rightarrow> length ws]", goal_cases)
  case 1
  show ?case by simp
next
  case (2 c s x2 var ordered)
  from select_unassigned_variable_sound[of c "search_domains s" "search_assignment s" var] 2
  have "var \<in> set (variables c)" "\<not> dict_contains (search_assignment s) var" by auto
  then show ?case by (simp add: unassigned_delete_fresh)
next
  case (3 c var w rest s s1 ok)
  then show ?case
    by (cases "var \<in> set (variables c)")
       (simp_all add: unassigned_set[of var c "search_assignment s" w] unassigned_set_other)
next
  case (4 c var w rest s s1 ok r res s2 a)
  from backtrack_restores_partial(1)[OF 4(8)] 4
  have "search_assignment s2 = search_assignment s1" by auto
  with 4 dict_del_Some[OF 4(7)] show ?case by (simp add: unassigned_set_delete delete_idem)
next
  case (5 c var w rest s s1 ok a)
  with dict_del_Some[OF 5(4)] show ?case by (simp add: unassigned_set_delete delete_idem)
qed


declare backtrack.simps [simp del]

text \<open>
  \<^verbatim>\<open>solve\<close>: the value returned by \<^verbatim>\<open>self.ac3()\<close> is dropped, and \<^verbatim>\<open>backtrack\<close> is called on
  the empty dictionary with the domains as \<^verbatim>\<open>ac3\<close> left them.
\<close>

definition solve :: "crossword \<Rightarrow> domains \<Rightarrow> (assignment option \<times> search) option" where
  "solve c doms =
     (case enforce_node_consistency doms of None \<Rightarrow> None
      | Some doms1 \<Rightarrow>
         (case ac3 c doms1 None of None \<Rightarrow> None
          | Some (ok, doms2) \<Rightarrow>
             backtrack c \<lparr>search_domains = doms2, search_assignment = [], backtrack_calls = 0\<rparr>))"


text \<open>\<^verbatim>\<open>len(self.domains[v])\<close>, for a slot that has a domain.\<close>

definition domain_size :: "domains \<Rightarrow> variable \<Rightarrow> nat" where
  "domain_size doms v = (case dict_get doms v of None \<Rightarrow> 0 | Some d \<Rightarrow> length d)"

subsection \<open>Complete and consistent assignments\<close>

text \<open>
  The spec's words: an assignment is complete when every slot has an entry, and consistent when
  every assigned word matches its slot's length, no two slots share an identical word, and every
  overlapping pair of assigned slots agrees at the overlap offsets.
\<close>

definition complete :: "crossword \<Rightarrow> (variable \<Rightarrow> string option) \<Rightarrow> bool" where
  "complete c m = (\<forall>v \<in> set (variables c). m v \<noteq> None)"

definition agree :: "crossword \<Rightarrow> variable \<Rightarrow> string \<Rightarrow> variable \<Rightarrow> string \<Rightarrow> bool" where
  "agree c x w y u =
     (case map_of (overlaps c) (x, y) of
        Some (Some (i, j)) \<Rightarrow> w ! i = u ! j
      | _ \<Rightarrow> True)"

definition globally_consistent :: "crossword \<Rightarrow> (variable \<Rightarrow> string option) \<Rightarrow> bool" where
  "globally_consistent c m =
     ((\<forall>x \<in> set (variables c). case m x of None \<Rightarrow> True | Some w \<Rightarrow> length w = var_length x) \<and>
      (\<forall>x \<in> set (variables c). \<forall>y \<in> set (variables c).
         case (m x, m y) of
           (Some w, Some u) \<Rightarrow> x \<noteq> y \<longrightarrow> w \<noteq> u \<and> agree c x w y u
         | _ \<Rightarrow> True))"

text \<open>
  The spec's words: a solution is a complete and consistent assignment of vocabulary words to
  the slots.
\<close>

definition solution :: "crossword \<Rightarrow> (variable \<Rightarrow> string option) \<Rightarrow> bool" where
  "solution c m =
     (complete c m \<and> globally_consistent c m \<and>
      (\<forall>v \<in> set (variables c). case m v of None \<Rightarrow> True | Some w \<Rightarrow> w \<in> set (words c)))"

subsection \<open>Well-formed crosswords and arc consistency\<close>

text \<open>
  Modelled from the spec: what the class \<^verbatim>\<open>Crossword\<close> of \<^verbatim>\<open>crossword.py\<close>, which is not among the
  sources, guarantees of its attributes. The slots form a set; the keys of the overlap
  dictionary are ordered pairs of different slots; an overlap \<open>(i, j)\<close> of \<open>(x, y)\<close> gives a
  character index within the word of \<open>x\<close> and one within the word of \<open>y\<close>, and the overlap of
  \<open>(y, x)\<close> is then \<open>(j, i)\<close>.
\<close>

definition wf_crossword :: "crossword \<Rightarrow> bool" where
  "wf_crossword c =
     (distinct (variables c) \<and>
      (\<forall>(x, y) \<in> set (map fst (overlaps c)).
         x \<in> set (variables c) \<and> y \<in> set (variables c) \<and> x \<noteq> y \<and>
         (case dict_get (overlaps c) (x, y) of
            Some (Some (i, j)) \<Rightarrow>
              i < var_length x \<and> j < var_length y \<and> dict_get (overlaps c) (y, x) = Some (Some (j, i))
          | _ \<Rightarrow> True)))"

text \<open>The invariant of the data model: every word of a slot's domain has the slot's length.\<close>

definition node_consistent :: "domains \<Rightarrow> bool" where
  "node_consistent doms = (\<forall>(v, d) \<in> set doms. \<forall>w \<in> set d. length w = var_length v)"

text \<open>
  The spec's words: for every overlapping pair \<open>(x, y)\<close> and every word \<open>w\<close> in the domain of
  \<open>x\<close> there is a word in the domain of \<open>y\<close> that agrees with \<open>w\<close> at the overlap offsets.
\<close>

definition arc_consistent :: "crossword \<Rightarrow> domains \<Rightarrow> bool" where
  "arc_consistent c doms =
     (\<forall>(x, y) \<in> set (map fst (overlaps c)).
        case dict_get (overlaps c) (x, y) of
          Some (Some (i, j)) \<Rightarrow>
            (case (dict_get doms x, dict_get doms y) of
               (Some dx, Some dy) \<Rightarrow> \<forall>w \<in> set dx. \<exists>u \<in> set dy. w ! i = u ! j
             | _ \<Rightarrow> False)
        | _ \<Rightarrow> True)"

subsection \<open>Notions of the proofs\<close>

text \<open>What \<^verbatim>\<open>enforce_node_consistency\<close> makes of one entry of the store.\<close>

definition node_filter :: "variable \<times> string list \<Rightarrow> variable \<times> string list" where
  "node_filter p = (fst p, filter (\<lambda>w. length w = var_length (fst p)) (snd p))"

text \<open>\<open>node_consistent\<close> on the store as a map.\<close>

definition node_ok :: "(variable \<Rightarrow> string list option) \<Rightarrow> bool" where
  "node_ok m = (\<forall>v d. m v = Some d \<longrightarrow> (\<forall>w \<in> set d. length w = var_length v))"

text \<open>The condition of \<open>arc_consistent\<close> for one pair of slots, on the store as a map.\<close>

definition arc_ok :: "crossword \<Rightarrow> (variable \<Rightarrow> string list option) \<Rightarrow> variable \<Rightarrow> variable \<Rightarrow> bool" where
  "arc_ok c m p q =
     (\<forall>i j. map_of (overlaps c) (p, q) = Some (Some (i, j)) \<longrightarrow>
        (\<exists>dp dq. m p = Some dp \<and> m q = Some dq \<and> (\<forall>w \<in> set dp. \<exists>u \<in> set dq. w ! i = u ! j)))"

text \<open>
  The invariant of the loop of \<^verbatim>\<open>ac3\<close>: the store is keyed by the slots and node consistent, the
  worklist holds keys of the overlap dictionary, and every such key is in the worklist or its
  arc is consistent.
\<close>

definition ac3_inv :: "crossword \<Rightarrow> domains \<Rightarrow> (variable \<times> variable) list \<Rightarrow> bool" where
  "ac3_inv c doms queue =
     (map fst doms = variables c \<and> node_ok (map_of doms) \<and>
      set queue \<subseteq> set (map fst (overlaps c)) \<and>
      (\<forall>(p, q) \<in> set (map fst (overlaps c)). (p, q) \<in> set queue \<or> arc_ok c (map_of doms) p q))"

text \<open>The assignment \<open>m\<close> gives every slot a word of the slot's domain.\<close>

definition within :: "crossword \<Rightarrow> (variable \<Rightarrow> string option) \<Rightarrow> domains \<Rightarrow> bool" where
  "within c m doms =
     (\<forall>v \<in> set (variables c). \<exists>w d. m v = Some w \<and> map_of doms v = Some d \<and> w \<in> set d)"

text \<open>The assignment \<open>m\<close> has every entry of the dictionary \<open>a\<close>.\<close>

definition extends :: "(variable \<Rightarrow> string option) \<Rightarrow> assignment \<Rightarrow> bool" where
  "extends m a = (\<forall>(v, w) \<in> set a. m v = Some w)"

subsection \<open>A small instance\<close>

text \<open>
  Two slots of length three that cross in their middle cells, and a vocabulary of six
  three-letter words and one four-letter word.
\<close>

definition slot_A :: variable where
  "slot_A = \<lparr>var_i = 1, var_j = 0, var_direction = ACROSS, var_length = 3\<rparr>"

definition slot_B :: variable where
  "slot_B = \<lparr>var_i = 0, var_j = 1, var_direction = DOWN, var_length = 3\<rparr>"

definition two_slots :: crossword where
  "two_slots =
     \<lparr>variables = [slot_A, slot_B],
      words = [''CAT'', ''DOG'', ''BAT'', ''TAN'', ''TEN'', ''BIT'', ''LION''],
      overlaps = [((slot_A, slot_B), Some (1, 1)), ((slot_B, slot_A), Some (1, 1))]\<rparr>"

text \<open>A state of the search on these slots in which no word of \<open>slot_A\<close> fits the only word of \<open>slot_B\<close>.\<close>

definition dead_end :: search where
  "dead_end =
     \<lparr>search_domains = [(slot_A, [''CAT'', ''DOG'']), (slot_B, [''TEN''])],
      search_assignment = [(slot_B, ''TEN'')],
      backtrack_calls = 0\<rparr>"

text \<open>
  Two slots of length three that share a corner: the last cell of \<open>slot_P\<close> is the first cell
  of \<open>slot_Q\<close>.
\<close>

definition slot_P :: variable where
  "slot_P = \<lparr>var_i = 0, var_j = 0, var_direction = ACROSS, var_length = 3\<rparr>"

definition slot_Q :: variable where
  "slot_Q = \<lparr>var_i = 0, var_j = 2, var_direction = DOWN, var_length = 3\<rparr>"

definition corner :: crossword where
  "corner =
     \<lparr>variables = [slot_P, slot_Q],
      words = [''CAT'', ''DOG''],
      overlaps = [((slot_P, slot_Q), Some (2, 0)), ((slot_Q, slot_P), Some (0, 2))]\<rparr>"

text \<open>
  One slot of length eight and a vocabulary of 10000000001 different words of eight letters:
  the numbers below 10000000001 written with the letters A to Z as digits, lowest digit first.
\<close>

definition spell :: "nat \<Rightarrow> string" where
  "spell n = map (\<lambda>k. char_of (65 + (n div 26 ^ k) mod 26)) [0..<8]"

definition huge_vocabulary :: "string list" where
  "huge_vocabulary = map spell [0..<10000000001]"

definition slot_H :: variable where
  "slot_H = \<lparr>var_i = 0, var_j = 0, var_direction = ACROSS, var_length = 8\<rparr>"

definition huge :: crossword where
  "huge = \<lparr>variables = [slot_H], words = huge_vocabulary, overlaps = []\<rparr>"

text \<open>The definitions that the evaluation of the solver on an instance unfolds.\<close>

lemmas solver_defs =
  CrosswordCreator_def dict_contains_def dict_get_def dict_set_def dict_del_def
  set_remove_def str_index_def neighbors_def enforce_node_consistency_def revise_def
  ac3_iteration_def ac3_def assignment_complete_def consistent_def order_domain_values_def
  select_unassigned_variable_def solve_def backtrack.simps

lemmas instance_defs =
  two_slots_def slot_A_def slot_B_def dead_end_def corner_def slot_P_def slot_Q_def

section \<open>Node consistency\<close>

lemma update_append_fresh:
  "k \<notin> fst ` set xs \<Longrightarrow> AList.update k v (xs @ (k, v0) # ys) = xs @ (k, v) # ys"
  by (induction xs) auto

lemma map_of_append_fresh:
  "k \<notin> fst ` set xs \<Longrightarrow> map_of (xs @ (k, v0) # ys) k = Some v0"
  by (induction xs) auto

lemma enforce_node_elements_filter:
  assumes "map_of doms var = Some (kept @ rest)"
    and "\<forall>w \<in> set kept. length w = var_length var"
  shows "enforce_node_elements var rest doms =
           Some (AList.update var (kept @ filter (\<lambda>w. length w = var_length var) rest) doms)"
  using assms
proof (induction rest arbitrary: kept doms)
  case Nil
  then show ?case by (simp add: update_triv)
next
  case (Cons e rest)
  show ?case
  proof (cases "length e = var_length var")
    case True
    have "enforce_node_elements var rest doms =
           Some (AList.update var ((kept @ [e]) @ filter (\<lambda>w. length w = var_length var) rest) doms)"
      using Cons.prems True by (intro Cons.IH) auto
    with True show ?thesis by simp
  next
    case False
    with Cons.prems(2) have "e \<notin> set kept" by auto
    then have rm: "remove1 e (kept @ e # rest) = kept @ rest" by (simp add: remove1_append)
    have "enforce_node_elements var rest (AList.update var (kept @ rest) doms) =
           Some (AList.update var (kept @ filter (\<lambda>w. length w = var_length var) rest)
                  (AList.update var (kept @ rest) doms))"
      using Cons.prems(2) by (intro Cons.IH) (simp_all add: update_conv')
    with False Cons.prems(1) rm show ?thesis
      by (simp add: dict_get_def set_remove_def dict_set_def)
  qed
qed

lemma enforce_node_items_filter:
  assumes "distinct (map fst (pre @ items))"
  shows "enforce_node_items items (map node_filter pre @ items) = Some (map node_filter (pre @ items))"
  using assms
proof (induction items arbitrary: pre)
  case Nil
  then show ?case by simp
next
  case (Cons item items)
  obtain var elements where item: "item = (var, elements)" by (cases item)
  have "map fst (map node_filter pre) = map fst pre"
    by (simp add: node_filter_def comp_def)
  then have "fst ` set (map node_filter pre) = set (map fst pre)"
    by (metis set_map)
  moreover from Cons.prems item have "var \<notin> set (map fst pre)" by simp
  ultimately have fresh: "var \<notin> fst ` set (map node_filter pre)" by simp
  have "enforce_node_elements var elements (map node_filter pre @ (var, elements) # items) =
          Some (AList.update var ([] @ filter (\<lambda>w. length w = var_length var) elements)
                 (map node_filter pre @ (var, elements) # items))"
  proof (rule enforce_node_elements_filter)
    show "map_of (map node_filter pre @ (var, elements) # items) var = Some ([] @ elements)"
      using map_of_append_fresh[OF fresh, of elements items] by simp
  qed simp
  also have "\<dots> = Some (map node_filter (pre @ [item]) @ items)"
    using fresh by (simp add: update_append_fresh item node_filter_def)
  finally have step: "enforce_node_elements var elements (map node_filter pre @ item # items) =
          Some (map node_filter (pre @ [item]) @ items)" by (simp add: item)
  from Cons.prems have "distinct (map fst ((pre @ [item]) @ items))" by simp
  from Cons.IH[OF this] step show ?case by (simp add: item)
qed


text \<open>
  C5. When the keys of the domain store are distinct, as those of a dictionary are,
  \<^verbatim>\<open>enforce_node_consistency\<close> returns normally, and the store it leaves is the store it
  started from with each slot's domain filtered: the words whose length is the slot's length
  stay, in their order, and every other word is removed.
\<close>

theorem enforce_node_consistency_prunes_exactly:
  assumes "distinct (map fst doms)"
  shows "enforce_node_consistency doms =
           Some (map (\<lambda>(var, elements). (var, filter (\<lambda>w. length w = var_length var) elements)) doms)"
proof -
  have "(\<lambda>(var, elements). (var, filter (\<lambda>w. length w = var_length var) elements)) = node_filter"
    by (auto simp: node_filter_def fun_eq_iff)
  with enforce_node_items_filter[of "[]" doms] assms show ?thesis
    by (simp add: enforce_node_consistency_def)
qed

theorem enforce_node_consistency_prunes_exactly_witness:
  "distinct (map fst (CrosswordCreator two_slots)) \<and>
   enforce_node_consistency (CrosswordCreator two_slots) =
     Some [(slot_A, [''CAT'', ''DOG'', ''BAT'', ''TAN'', ''TEN'', ''BIT'']),
           (slot_B, [''CAT'', ''DOG'', ''BAT'', ''TAN'', ''TEN'', ''BIT''])]"
proof -
  have d: "distinct (map fst (CrosswordCreator two_slots))"
    by (simp add: CrosswordCreator_def two_slots_def slot_A_def slot_B_def)
  show ?thesis
    using d enforce_node_consistency_prunes_exactly[OF d]
    by (simp add: CrosswordCreator_def two_slots_def slot_A_def slot_B_def)
qed


section \<open>Revision of one arc\<close>

lemma revise_possible_exact:
  assumes "fst ov < length w" and "\<forall>u \<in> set dy. snd ov < length u"
  shows "revise_possible w ov dy = Some (\<exists>u \<in> set dy. w ! fst ov = u ! snd ov)"
  using assms by (induction dy) (auto simp: str_index_def)

lemma remove1_after_kept:
  "w \<notin> set kept \<Longrightarrow> remove1 w (kept @ w # rest) = kept @ rest"
  by (simp add: remove1_append)

lemma revise_words_exact:
  assumes "x \<noteq> y"
    and "map_of doms x = Some (kept @ rest)"
    and "map_of doms y = Some dy"
    and "\<forall>w \<in> set kept. \<exists>u \<in> set dy. w ! fst ov = u ! snd ov"
    and "\<forall>w \<in> set rest. fst ov < length w"
    and "\<forall>u \<in> set dy. snd ov < length u"
  shows "revise_words x y ov rest doms revised =
           Some (revised \<or> (\<exists>w \<in> set rest. \<not> (\<exists>u \<in> set dy. w ! fst ov = u ! snd ov)),
                 AList.update x (kept @ filter (\<lambda>w. \<exists>u \<in> set dy. w ! fst ov = u ! snd ov) rest) doms)"
  using assms(2-5)
proof (induction rest arbitrary: kept doms revised)
  case Nil
  then show ?case by (simp add: update_triv)
next
  case (Cons w rest)
  let ?supp = "\<lambda>w. \<exists>u \<in> set dy. w ! fst ov = u ! snd ov"
  from Cons.prems(4) assms(6) have poss: "revise_possible w ov dy = Some (?supp w)"
    by (intro revise_possible_exact) auto
  show ?case
  proof (cases "?supp w")
    case True
    have "revise_words x y ov rest doms revised =
            Some (revised \<or> (\<exists>w \<in> set rest. \<not> ?supp w),
                  AList.update x ((kept @ [w]) @ filter ?supp rest) doms)"
      using Cons.prems True by (intro Cons.IH) auto
    with True poss Cons.prems(2) show ?thesis by (auto simp: dict_get_def)
  next
    case False
    with Cons.prems(3) have "w \<notin> set kept" by auto
    then have rm: "remove1 w (kept @ w # rest) = kept @ rest" by (rule remove1_after_kept)
    let ?doms1 = "AList.update x (kept @ rest) doms"
    have "revise_words x y ov rest ?doms1 True =
            Some (True \<or> (\<exists>w \<in> set rest. \<not> ?supp w),
                  AList.update x (kept @ filter ?supp rest) ?doms1)"
      using Cons.prems assms(1) by (intro Cons.IH) (simp_all add: update_conv')
    with False poss Cons.prems(1,2) rm show ?thesis
      by (auto simp: dict_get_def set_remove_def dict_set_def)
  qed
qed


text \<open>
  C6. Let \<open>x\<close> and \<open>y\<close> be two different slots with domains \<open>dx\<close> and \<open>dy\<close>, and let the overlap
  dictionary have an entry for \<open>(x, y)\<close>. If the entry is an overlap \<open>(i, j)\<close>, and the words of
  both domains are long enough to be read at these offsets (as they are after node consistency),
  then \<^verbatim>\<open>revise(x, y)\<close> leaves in the domain of \<open>x\<close> exactly the words \<open>w\<close> for which some word \<open>u\<close>
  of the domain of \<open>y\<close> has \<open>w[i] = u[j]\<close>, changes no other domain, and returns true exactly when
  a word was removed. If the entry is \<^verbatim>\<open>None\<close>, it returns false and changes nothing.
\<close>

theorem revise_removes_unsupported_exactly:
  assumes "x \<noteq> y"
    and "dict_get doms x = Some dx"
    and "dict_get doms y = Some dy"
    and "dict_get (overlaps c) (x, y) = Some overlap"
    and "case overlap of None \<Rightarrow> True
         | Some (i, j) \<Rightarrow> (\<forall>w \<in> set dx. i < length w) \<and> (\<forall>u \<in> set dy. j < length u)"
  shows "revise c doms x y =
           (case overlap of
              None \<Rightarrow> Some (False, doms)
            | Some (i, j) \<Rightarrow>
                Some (\<exists>w \<in> set dx. \<not> (\<exists>u \<in> set dy. w ! i = u ! j),
                      dict_set doms x (filter (\<lambda>w. \<exists>u \<in> set dy. w ! i = u ! j) dx)))"
proof (cases overlap)
  case None
  with assms(4) show ?thesis by (simp add: revise_def)
next
  case (Some ov)
  obtain i j where ov: "ov = (i, j)" by (cases ov)
  from assms(5) Some ov have r: "\<forall>w \<in> set dx. fst ov < length w" "\<forall>u \<in> set dy. snd ov < length u"
    by auto
  have "revise_words x y ov dx doms False =
          Some (False \<or> (\<exists>w \<in> set dx. \<not> (\<exists>u \<in> set dy. w ! fst ov = u ! snd ov)),
                AList.update x ([] @ filter (\<lambda>w. \<exists>u \<in> set dy. w ! fst ov = u ! snd ov) dx) doms)"
    using assms(1-3) r by (intro revise_words_exact) (simp_all add: dict_get_def)
  with assms(2,4) Some ov show ?thesis
    by (simp add: revise_def dict_set_def)
qed

theorem revise_removes_unsupported_exactly_witness:
  "revise two_slots [(slot_A, [''CAT'', ''DOG'', ''TEN'']), (slot_B, [''TAN'', ''TEN''])] slot_A slot_B =
     Some (True, [(slot_A, [''CAT'', ''TEN'']), (slot_B, [''TAN'', ''TEN''])])"
  using revise_removes_unsupported_exactly
    [of slot_A slot_B "[(slot_A, [''CAT'', ''DOG'', ''TEN'']), (slot_B, [''TAN'', ''TEN''])]"
        "[''CAT'', ''DOG'', ''TEN'']" "[''TAN'', ''TEN'']" two_slots "Some (1, 1)"]
  by (simp add: two_slots_def slot_A_def slot_B_def dict_get_def dict_set_def)


section \<open>The search leaves no trace\<close>

lemma backtrack_restores:
  "backtrack c s = Some (None, s') \<Longrightarrow> search_assignment s' = search_assignment s"
  "\<not> dict_contains (search_assignment s) var \<Longrightarrow>
     backtrack_words c var ws s = Some (None, s'') \<Longrightarrow> search_assignment s'' = search_assignment s"
proof (induct c s and c var ws s arbitrary: s' and s'' rule: backtrack_backtrack_words.induct)
  case (1 c s)
  from "1.prems" have nc: "\<not> assignment_complete c (search_assignment s)"
    by (auto simp: backtrack.simps split: if_splits)
  with "1.prems" obtain var ordered where
    sel: "select_unassigned_variable c (search_domains s) (search_assignment s) = Some (Some var)"
    and ord: "order_domain_values c (search_domains s) var (search_assignment s) = Some ordered"
    and res: "backtrack_words c var ordered (s\<lparr>backtrack_calls := backtrack_calls s + 1\<rparr>) = Some (None, s')"
    by (auto simp: backtrack.simps split: option.splits)
  from select_unassigned_variable_sound[OF sel] have "\<not> dict_contains (search_assignment s) var" by simp
  with "1.hyps"[OF nc sel refl ord _ res] show ?case by simp
next
  case (2 c var s)
  then show ?case by simp
next
  case (3 c var w rest s)
  define s1 where "s1 = s\<lparr>search_assignment := dict_set (search_assignment s) var w\<rparr>"
  from "3.prems"(2) obtain ok where ok: "consistent c (search_assignment s1) = Some ok"
    by (auto simp: s1_def Let_def split: option.splits)
  have del1: "dict_del (search_assignment s1) var = Some (search_assignment s)"
    using "3.prems"(1) by (simp add: s1_def dict_del_set_fresh)
  show ?case
  proof (cases ok)
    case False
    with "3.prems"(2) ok del1
    have r: "backtrack_words c var rest (s1\<lparr>search_assignment := search_assignment s\<rparr>) = Some (None, s'')"
      by (simp add: s1_def[symmetric] Let_def)
    from "3.hyps"(3)[OF s1_def ok _ del1 _ r] False "3.prems"(1) show ?thesis by simp
  next
    case True
    with "3.prems"(2) ok obtain s2 where
      b: "backtrack c s1 = Some (None, s2)"
      by (auto simp: s1_def[symmetric] Let_def split: option.splits prod.splits)
    from "3.hyps"(1)[OF s1_def ok True b] have eq: "search_assignment s2 = search_assignment s1" .
    with del1 have del2: "dict_del (search_assignment s2) var = Some (search_assignment s)" by simp
    with "3.prems"(2) ok True b
    have r: "backtrack_words c var rest (s2\<lparr>search_assignment := search_assignment s\<rparr>) = Some (None, s'')"
      by (simp add: s1_def[symmetric] Let_def)
    from "3.hyps"(2)[OF s1_def ok True b refl refl del2 _ r] "3.prems"(1) show ?thesis by simp
  qed
qed

lemma backtrack_keeps_domains:
  "backtrack c s = Some (r, s') \<Longrightarrow> search_domains s' = search_domains s"
  "backtrack_words c var ws s = Some (r', s'') \<Longrightarrow> search_domains s'' = search_domains s"
proof (induct c s and c var ws s arbitrary: r s' and r' s'' rule: backtrack_backtrack_words.induct)
  case (1 c s)
  show ?case
  proof (cases "assignment_complete c (search_assignment s)")
    case True
    with "1.prems" show ?thesis by (auto simp: backtrack.simps)
  next
    case nc: False
    with "1.prems" obtain var ordered where
      sel: "select_unassigned_variable c (search_domains s) (search_assignment s) = Some (Some var)"
      and ord: "order_domain_values c (search_domains s) var (search_assignment s) = Some ordered"
      and res: "backtrack_words c var ordered (s\<lparr>backtrack_calls := backtrack_calls s + 1\<rparr>) = Some (r, s')"
      by (auto simp: backtrack.simps split: option.splits)
    from "1.hyps"[OF nc sel refl ord res] show ?thesis by simp
  qed
next
  case (2 c var s)
  then show ?case by simp
next
  case (3 c var w rest s)
  define s1 where "s1 = s\<lparr>search_assignment := dict_set (search_assignment s) var w\<rparr>"
  from "3.prems" obtain ok where ok: "consistent c (search_assignment s1) = Some ok"
    by (auto simp: s1_def Let_def split: option.splits)
  show ?case
  proof (cases ok)
    case False
    with "3.prems" ok obtain a where del: "dict_del (search_assignment s1) var = Some a"
      and r: "backtrack_words c var rest (s1\<lparr>search_assignment := a\<rparr>) = Some (r', s'')"
      by (auto simp: s1_def[symmetric] Let_def split: option.splits)
    from "3.hyps"(3)[OF s1_def ok _ del r] False show ?thesis by (simp add: s1_def)
  next
    case True
    with "3.prems" ok obtain r1 s2 where b: "backtrack c s1 = Some (r1, s2)"
      by (auto simp: s1_def[symmetric] Let_def split: option.splits prod.splits)
    from "3.hyps"(1)[OF s1_def ok True b] have d2: "search_domains s2 = search_domains s"
      by (simp add: s1_def)
    show ?thesis
    proof (cases r1)
      case (Some a)
      with "3.prems" ok True b d2 show ?thesis by (auto simp: s1_def[symmetric] Let_def)
    next
      case None
      with "3.prems" ok True b obtain a where del: "dict_del (search_assignment s2) var = Some a"
        and r: "backtrack_words c var rest (s2\<lparr>search_assignment := a\<rparr>) = Some (r', s'')"
        by (auto simp: s1_def[symmetric] Let_def split: option.splits)
      from "3.hyps"(2)[OF s1_def ok True b refl None del r] d2 show ?thesis by simp
    qed
  qed
qed


text \<open>
  C7. Whenever \<^verbatim>\<open>backtrack\<close> returns \<^verbatim>\<open>None\<close>, the dictionary \<^verbatim>\<open>assignment\<close> is at the return what
  it was at the call, entry for entry and in the same order: every entry set in the call has
  been deleted again.
\<close>

theorem backtrack_failure_restores_assignment:
  "backtrack c s = Some (None, s') \<Longrightarrow> search_assignment s' = search_assignment s"
  by (rule backtrack_restores(1))

theorem backtrack_failure_restores_assignment_witness:
  "backtrack two_slots dead_end = Some (None, dead_end\<lparr>backtrack_calls := 1\<rparr>) \<and>
   search_assignment (dead_end\<lparr>backtrack_calls := 1\<rparr>) = search_assignment dead_end"
proof -
  have run: "backtrack two_slots dead_end = Some (None, dead_end\<lparr>backtrack_calls := 1\<rparr>)"
    by (simp add: solver_defs instance_defs)
  from run backtrack_failure_restores_assignment[OF run] show ?thesis by simp
qed

text \<open>
  C8. The domain store at the return of \<^verbatim>\<open>backtrack\<close> is the store at the call, whether the call
  returns an assignment or \<^verbatim>\<open>None\<close>. The helpers \<^verbatim>\<open>select_unassigned_variable\<close>,
  \<^verbatim>\<open>order_domain_values\<close> and \<^verbatim>\<open>consistent\<close> only read the store: in the embedding they are
  functions of it that return no store.
\<close>

theorem backtrack_keeps_domain_store:
  "backtrack c s = Some (r, s') \<Longrightarrow> search_domains s' = search_domains s"
  by (rule backtrack_keeps_domains(1))

theorem backtrack_keeps_domain_store_witness:
  "(\<exists>r s'. backtrack two_slots
              \<lparr>search_domains = [(slot_A, [''CAT'', ''DOG'']), (slot_B, [''TAN'', ''TEN''])],
               search_assignment = [], backtrack_calls = 0\<rparr> = Some (Some r, s') \<and>
            search_domains s' = [(slot_A, [''CAT'', ''DOG'']), (slot_B, [''TAN'', ''TEN''])])"
proof -
  let ?s = "\<lparr>search_domains = [(slot_A, [''CAT'', ''DOG'']), (slot_B, [''TAN'', ''TEN''])],
             search_assignment = [], backtrack_calls = 0\<rparr>"
  have "\<exists>r s'. backtrack two_slots ?s = Some (Some r, s')"
    by (simp add: solver_defs instance_defs)
  then obtain r s' where run: "backtrack two_slots ?s = Some (Some r, s')" by blast
  from backtrack_keeps_domain_store[OF run] run show ?thesis by auto
qed


section \<open>Soundness of the solver\<close>

lemma consistent_with_True:
  assumes "consistent_with c var word items = Some True" and "(y, u) \<in> set items" and "var \<noteq> y"
  shows "word \<noteq> u \<and>
         (case map_of (overlaps c) (var, y) of None \<Rightarrow> False
          | Some None \<Rightarrow> True
          | Some (Some (i, j)) \<Rightarrow> i < length word \<and> j < length u \<and> word ! i = u ! j)"
  using assms
proof (induction items)
  case Nil
  then show ?case by simp
next
  case (Cons item items)
  obtain y' u' where item: "item = (y', u')" by (cases item)
  show ?case
  proof (cases "(y, u) = item")
    case True
    with Cons.prems item show ?thesis
      by (auto simp: dict_get_def str_index_def split: option.splits if_splits prod.splits)
  next
    case False
    with Cons.prems have mem: "(y, u) \<in> set items" by auto
    from Cons.prems(1) item have "consistent_with c var word items = Some True"
      by (auto simp: dict_get_def split: option.splits if_splits prod.splits)
    from Cons.IH[OF this mem Cons.prems(3)] show ?thesis .
  qed
qed

lemma consistent_items_True:
  assumes "consistent_items c items a = Some True" and "(x, w) \<in> set items"
  shows "length w = var_length x \<and> consistent_with c x w a = Some True"
  using assms
proof (induction items)
  case Nil
  then show ?case by simp
next
  case (Cons item items)
  obtain x' w' where item: "item = (x', w')" by (cases item)
  from Cons.prems(1) item have hd: "length w' = var_length x'" "consistent_with c x' w' a = Some True"
    and tl: "consistent_items c items a = Some True"
    by (auto split: option.splits if_splits)
  show ?case
  proof (cases "(x, w) = item")
    case True
    with hd item show ?thesis by simp
  next
    case False
    with Cons.prems(2) have "(x, w) \<in> set items" by auto
    from Cons.IH[OF tl this] show ?thesis .
  qed
qed

lemma consistent_globally_consistent:
  assumes "consistent c a = Some True"
  shows "globally_consistent c (map_of a)"
proof -
  have len: "length w = var_length x" if "map_of a x = Some w" for x w
    using consistent_items_True[of c a a x w] assms that
    by (auto simp: consistent_def dest: map_of_SomeD)
  have pair: "w \<noteq> u \<and> agree c x w y u"
    if "map_of a x = Some w" "map_of a y = Some u" "x \<noteq> y" for x w y u
  proof -
    from that(1) assms have "consistent_with c x w a = Some True"
      using consistent_items_True[of c a a x w] by (auto simp: consistent_def dest: map_of_SomeD)
    from consistent_with_True[OF this _ that(3), of u] that(2)
    show ?thesis by (auto simp: agree_def dest: map_of_SomeD split: option.splits)
  qed
  show ?thesis
    unfolding globally_consistent_def
    by (auto split: option.splits simp: len dest: pair)
qed

lemma backtrack_sound:
  "backtrack c s = Some (Some a, s') \<Longrightarrow> consistent c (search_assignment s) = Some True \<Longrightarrow>
     assignment_complete c a \<and> consistent c a = Some True \<and> search_assignment s' = a"
  "backtrack_words c var ws s = Some (Some a', s'') \<Longrightarrow>
     assignment_complete c a' \<and> consistent c a' = Some True \<and> search_assignment s'' = a'"
proof (induct c s and c var ws s arbitrary: a s' and a' s'' rule: backtrack_backtrack_words.induct)
  case (1 c s)
  show ?case
  proof (cases "assignment_complete c (search_assignment s)")
    case True
    with "1.prems" show ?thesis by (auto simp: backtrack.simps)
  next
    case nc: False
    with "1.prems" obtain var ordered where
      sel: "select_unassigned_variable c (search_domains s) (search_assignment s) = Some (Some var)"
      and ord: "order_domain_values c (search_domains s) var (search_assignment s) = Some ordered"
      and res: "backtrack_words c var ordered (s\<lparr>backtrack_calls := backtrack_calls s + 1\<rparr>) = Some (Some a, s')"
      by (auto simp: backtrack.simps split: option.splits)
    from "1.hyps"[OF nc sel refl ord res] show ?thesis .
  qed
next
  case (2 c var s)
  then show ?case by simp
next
  case (3 c var w rest s)
  define s1 where "s1 = s\<lparr>search_assignment := dict_set (search_assignment s) var w\<rparr>"
  from "3.prems" obtain ok where ok: "consistent c (search_assignment s1) = Some ok"
    by (auto simp: s1_def Let_def split: option.splits)
  show ?case
  proof (cases ok)
    case False
    with "3.prems" ok obtain b where del: "dict_del (search_assignment s1) var = Some b"
      and r: "backtrack_words c var rest (s1\<lparr>search_assignment := b\<rparr>) = Some (Some a', s'')"
      by (auto simp: s1_def[symmetric] Let_def split: option.splits)
    from "3.hyps"(3)[OF s1_def ok _ del r] False show ?thesis by simp
  next
    case True
    with "3.prems" ok obtain r1 s2 where b: "backtrack c s1 = Some (r1, s2)"
      by (auto simp: s1_def[symmetric] Let_def split: option.splits prod.splits)
    show ?thesis
    proof (cases r1)
      case (Some a1)
      with "3.prems" ok True b have "a1 = a'" "s2 = s''" by (auto simp: s1_def[symmetric] Let_def)
      with "3.hyps"(1)[OF s1_def ok True] b Some ok True show ?thesis by simp
    next
      case None
      with "3.prems" ok True b obtain d where del: "dict_del (search_assignment s2) var = Some d"
        and r: "backtrack_words c var rest (s2\<lparr>search_assignment := d\<rparr>) = Some (Some a', s'')"
        by (auto simp: s1_def[symmetric] Let_def split: option.splits)
      from "3.hyps"(2)[OF s1_def ok True b refl None del r] show ?thesis .
    qed
  qed
qed

lemma assignment_complete_complete:
  "assignment_complete c a \<longleftrightarrow> complete c (map_of a)"
  by (simp add: assignment_complete_def complete_def list_all_iff dict_contains_def)


text \<open>
  C2. Whatever the slots, the overlaps and the domain store \<^verbatim>\<open>solve\<close> starts from: if it returns
  an assignment, then every slot of the crossword has a word in it, every assigned word has the
  length of its slot, no two different slots have the same word, and for every pair of slots
  with an overlap \<open>(i, j)\<close> the two words agree at these offsets.
\<close>

theorem solve_returns_complete_consistent:
  assumes "solve c doms = Some (Some a, s)"
  shows "complete c (dict_get a) \<and> globally_consistent c (dict_get a)"
proof -
  from assms obtain doms2 where
    run: "backtrack c \<lparr>search_domains = doms2, search_assignment = [], backtrack_calls = 0\<rparr> = Some (Some a, s)"
    by (auto simp: solve_def split: option.splits prod.splits)
  have "consistent c [] = Some True" by (simp add: consistent_def)
  with backtrack_sound(1)[OF run]
  have "assignment_complete c a" "consistent c a = Some True" by simp_all
  then have "complete c (map_of a)" "globally_consistent c (map_of a)"
    by (simp_all add: assignment_complete_complete consistent_globally_consistent)
  moreover have "dict_get a = map_of a" by (simp add: dict_get_def fun_eq_iff)
  ultimately show ?thesis by simp
qed

theorem solve_returns_complete_consistent_witness:
  "fst (the (solve two_slots (CrosswordCreator two_slots))) = Some [(slot_A, ''CAT''), (slot_B, ''BAT'')] \<and>
   complete two_slots (dict_get [(slot_A, ''CAT''), (slot_B, ''BAT'')]) \<and>
   globally_consistent two_slots (dict_get [(slot_A, ''CAT''), (slot_B, ''BAT'')])"
proof -
  have "\<exists>s. solve two_slots (CrosswordCreator two_slots) = Some (Some [(slot_A, ''CAT''), (slot_B, ''BAT'')], s)"
    by (simp add: solver_defs instance_defs)
  then obtain s where
    run: "solve two_slots (CrosswordCreator two_slots) = Some (Some [(slot_A, ''CAT''), (slot_B, ''BAT'')], s)"
    by blast
  from solve_returns_complete_consistent[OF run] run show ?thesis by simp
qed


section \<open>Selection of the next slot\<close>

lemma select_scan_spec:
  assumes "\<forall>v \<in> set vars. \<not> dict_contains a v \<longrightarrow> dict_contains doms v"
  shows "\<exists>m best'. select_scan doms a vars smallest best = Some (m, best') \<and>
           m \<le> smallest \<and>
           (\<forall>v \<in> set vars. \<not> dict_contains a v \<longrightarrow> m \<le> domain_size doms v) \<and>
           (m = smallest \<or> (\<exists>v \<in> set vars. \<not> dict_contains a v \<and> domain_size doms v = m)) \<and>
           best' = (if m < smallest then [] else best) @
                   filter (\<lambda>v. \<not> dict_contains a v \<and> domain_size doms v = m) vars"
  using assms
proof (induction vars arbitrary: smallest best)
  case Nil
  then show ?case by simp
next
  case (Cons var vars)
  from Cons.prems have rest: "\<forall>v \<in> set vars. \<not> dict_contains a v \<longrightarrow> dict_contains doms v" by simp
  show ?case
  proof (cases "dict_contains a var")
    case True
    from Cons.IH[OF rest, of smallest best] True show ?thesis by auto
  next
    case False
    with Cons.prems obtain d where d: "dict_get doms var = Some d"
      by (auto simp: dict_contains_def dict_get_def)
    then have sz: "domain_size doms var = length d" by (simp add: domain_size_def)
    consider "length d < smallest" | "length d = smallest" | "smallest < length d" by linarith
    then show ?thesis
    proof cases
      case 1
      from Cons.IH[OF rest, of "length d" "[var]"] obtain m best' where
        r: "select_scan doms a vars (length d) [var] = Some (m, best')" "m \<le> length d"
           "\<forall>v \<in> set vars. \<not> dict_contains a v \<longrightarrow> m \<le> domain_size doms v"
           "m = length d \<or> (\<exists>v \<in> set vars. \<not> dict_contains a v \<and> domain_size doms v = m)"
           "best' = (if m < length d then [] else [var]) @
                   filter (\<lambda>v. \<not> dict_contains a v \<and> domain_size doms v = m) vars"
        by blast
      from r 1 False d sz show ?thesis by (auto simp: Let_def)
    next
      case 2
      from Cons.IH[OF rest, of smallest "best @ [var]"] obtain m best' where
        r: "select_scan doms a vars smallest (best @ [var]) = Some (m, best')" "m \<le> smallest"
           "\<forall>v \<in> set vars. \<not> dict_contains a v \<longrightarrow> m \<le> domain_size doms v"
           "m = smallest \<or> (\<exists>v \<in> set vars. \<not> dict_contains a v \<and> domain_size doms v = m)"
           "best' = (if m < smallest then [] else best @ [var]) @
                   filter (\<lambda>v. \<not> dict_contains a v \<and> domain_size doms v = m) vars"
        by blast
      from r 2 False d sz show ?thesis by (auto simp: Let_def)
    next
      case 3
      from Cons.IH[OF rest, of smallest best] obtain m best' where
        r: "select_scan doms a vars smallest best = Some (m, best')" "m \<le> smallest"
           "\<forall>v \<in> set vars. \<not> dict_contains a v \<longrightarrow> m \<le> domain_size doms v"
           "m = smallest \<or> (\<exists>v \<in> set vars. \<not> dict_contains a v \<and> domain_size doms v = m)"
           "best' = (if m < smallest then [] else best) @
                   filter (\<lambda>v. \<not> dict_contains a v \<and> domain_size doms v = m) vars"
        by blast
      from r 3 False d sz show ?thesis by (auto simp: Let_def)
    qed
  qed
qed

lemma degrees_entries:
  "\<forall>p \<in> set acc. snd p = f (fst p) \<Longrightarrow>
     \<forall>p \<in> set (fold (\<lambda>var degrees. dict_set degrees var (f var)) best acc). snd p = f (fst p)"
proof (induction best arbitrary: acc)
  case Nil
  then show ?case by simp
next
  case (Cons v best)
  have "set (AList.update v (f v) acc) \<subseteq> insert (v, f v) (set acc)"
    by (induction acc) auto
  with Cons.prems have "\<forall>p \<in> set (dict_set acc v (f v)). snd p = f (fst p)"
    by (auto simp: dict_set_def)
  from Cons.IH[OF this] show ?case by simp
qed

lemma sort_key_first_least:
  assumes "xs \<noteq> []"
  shows "sort_key k xs ! 0 \<in> set xs \<and> (\<forall>x \<in> set xs. k (sort_key k xs ! 0) \<le> k x)"
proof -
  from assms have ne: "sort_key k xs \<noteq> []" by (metis length_0_conv length_sort)
  then obtain y ys where ys: "sort_key k xs = y # ys" by (cases "sort_key k xs") auto
  have "sorted (map k (y # ys))" using sorted_sort_key[of k xs] ys by simp
  then have "\<forall>x \<in> set (y # ys). k y \<le> k x" by auto
  moreover have "set (y # ys) = set xs" using ys by (metis set_sort)
  ultimately show ?thesis using ys by auto
qed

lemma select_unassigned_variable_spec:
  assumes doms: "\<forall>v \<in> set (variables c). \<not> dict_contains a v \<longrightarrow> dict_contains doms v"
    and small: "\<exists>v \<in> set (variables c). \<not> dict_contains a v \<and> domain_size doms v \<le> 10000000000"
  shows "\<exists>var. select_unassigned_variable c doms a = Some (Some var) \<and>
           var \<in> set (variables c) \<and> \<not> dict_contains a var \<and>
           (\<forall>v \<in> set (variables c). \<not> dict_contains a v \<longrightarrow> domain_size doms var \<le> domain_size doms v) \<and>
           (\<forall>v \<in> set (variables c). \<not> dict_contains a v \<and> domain_size doms v = domain_size doms var \<longrightarrow>
               length (neighbors c v) \<le> length (neighbors c var))"
proof -
  from select_scan_spec[OF doms, of 10000000000 "[]"] obtain m best where
    scan: "select_scan doms a (variables c) 10000000000 [] = Some (m, best)"
    and le: "m \<le> 10000000000"
    and low: "\<forall>v \<in> set (variables c). \<not> dict_contains a v \<longrightarrow> m \<le> domain_size doms v"
    and att: "m = 10000000000 \<or> (\<exists>v \<in> set (variables c). \<not> dict_contains a v \<and> domain_size doms v = m)"
    and best: "best = filter (\<lambda>v. \<not> dict_contains a v \<and> domain_size doms v = m) (variables c)"
    by auto
  from small low att have "\<exists>v \<in> set (variables c). \<not> dict_contains a v \<and> domain_size doms v = m"
    by (metis le_antisym)
  with best have ne: "best \<noteq> []" by (auto simp: filter_empty_conv)
  have mem: "v \<in> set best \<longleftrightarrow> v \<in> set (variables c) \<and> \<not> dict_contains a v \<and> domain_size doms v = m" for v
    using best by auto
  define degrees where
    "degrees = fold (\<lambda>var degrees. dict_set degrees var (length (neighbors c var))) best []"
  define var where
    "var = (if length best = 1 then best ! 0 else fst (sort_key (\<lambda>p. - int (snd p)) degrees ! 0))"
  have sel: "select_unassigned_variable c doms a = Some (Some var)"
    using scan ne by (simp add: select_unassigned_variable_def var_def degrees_def Let_def)
  have "var \<in> set best \<and> (\<forall>v \<in> set best. length (neighbors c v) \<le> length (neighbors c var))"
  proof (cases "length best = 1")
    case True
    then obtain b where "best = [b]" by (cases best) auto
    then show ?thesis by (simp add: var_def)
  next
    case False
    have keys: "fst ` set degrees = set best"
      unfolding degrees_def by (simp add: degrees_keys)
    with ne have dne: "degrees \<noteq> []" by auto
    have ent: "\<forall>p \<in> set degrees. snd p = length (neighbors c (fst p))"
      unfolding degrees_def by (rule degrees_entries) simp
    let ?top = "sort_key (\<lambda>p. - int (snd p)) degrees ! 0"
    from sort_key_first_least[OF dne, of "\<lambda>p. - int (snd p)"]
    have top: "?top \<in> set degrees" "\<forall>p \<in> set degrees. snd p \<le> snd ?top" by auto
    have v: "var = fst ?top" using False by (simp add: var_def)
    have "length (neighbors c v) \<le> length (neighbors c var)" if "v \<in> set best" for v
    proof -
      from that keys have "v \<in> fst ` set degrees" by simp
      then obtain p where p: "p \<in> set degrees" "fst p = v" by (auto simp: image_iff)
      with top(2) ent top(1) show ?thesis by (auto simp: v)
    qed
    moreover from top(1) keys have "var \<in> set best" by (auto simp: v)
    ultimately show ?thesis by blast
  qed
  with sel mem low show ?thesis by auto
qed


text \<open>The vocabulary of the instance \<open>huge\<close> is a set of 10000000001 words.\<close>

lemma length_huge_vocabulary: "length huge_vocabulary = 10000000001"
  by (simp add: huge_vocabulary_def)

lemma digits_mod:
  "(n::nat) mod 26 ^ Suc k = n mod 26 ^ k + 26 ^ k * ((n div 26 ^ k) mod 26)"
proof -
  have "n mod (26 ^ k * 26) = 26 ^ k * (n div 26 ^ k mod 26) + n mod 26 ^ k"
    by (rule mod_mult2_eq)
  then show ?thesis by (simp add: mult.commute)
qed

lemma spell_inj:
  assumes "spell n = spell m" "n < 26 ^ 8" "m < 26 ^ 8"
  shows "n = m"
proof -
  have d: "(n div 26 ^ k) mod 26 = (m div 26 ^ k) mod 26" if "k < 8" for k
  proof -
    from assms(1) have "\<forall>x\<in>{0..<8}. n div 26 ^ x mod 26 = m div 26 ^ x mod 26"
      by (simp add: spell_def)
    with that show ?thesis by simp
  qed
  have "n mod 26 ^ k = m mod 26 ^ k" if "k \<le> 8" for k
    using that
  proof (induction k)
    case 0
    then show ?case by simp
  next
    case (Suc k)
    then have "n mod 26 ^ k = m mod 26 ^ k" "k < 8" by simp_all
    with d[of k] show ?case by (simp only: digits_mod)
  qed
  from this[of 8] assms(2,3) show ?thesis by simp
qed

lemma distinct_huge_vocabulary: "distinct huge_vocabulary"
proof -
  have "inj_on spell (set [0..<10000000001])"
    by (rule inj_onI) (auto intro!: spell_inj)
  then show ?thesis by (simp add: huge_vocabulary_def distinct_map)
qed


lemma length_spell: "length (spell n) = 8"
  by (simp add: spell_def)

lemma node_filter_huge: "map node_filter (CrosswordCreator huge) = CrosswordCreator huge"
proof -
  have "filter (\<lambda>w. length w = 8) huge_vocabulary = huge_vocabulary"
    by (simp add: huge_vocabulary_def filter_id_conv length_spell)
  then show ?thesis
    by (simp add: CrosswordCreator_def huge_def node_filter_def slot_H_def)
qed

lemma solve_raises_beyond_sentinel: "solve huge (CrosswordCreator huge) = None"
proof -
  have "distinct (map fst ([] @ CrosswordCreator huge))"
    by (simp add: CrosswordCreator_def huge_def)
  from enforce_node_items_filter[OF this]
  have enc: "enforce_node_consistency (CrosswordCreator huge) = Some (CrosswordCreator huge)"
    by (simp add: enforce_node_consistency_def node_filter_huge)
  have ac: "ac3 huge (CrosswordCreator huge) None = Some (True, CrosswordCreator huge)"
    by (simp add: ac3_def huge_def)
  have sel: "select_unassigned_variable huge (CrosswordCreator huge) [] = Some None"
    by (simp add: select_unassigned_variable_def CrosswordCreator_def huge_def dict_contains_def
          dict_get_def length_huge_vocabulary)
  have nc: "\<not> assignment_complete huge []"
    by (simp add: assignment_complete_def huge_def dict_contains_def)
  have "backtrack huge \<lparr>search_domains = CrosswordCreator huge, search_assignment = [],
                          backtrack_calls = 0\<rparr> = None"
    using sel nc by (simp add: backtrack.simps)
  with enc ac show ?thesis by (simp add: solve_def)
qed


text \<open>
  C10. \<^verbatim>\<open>smallest_domain\<close> starts at 10000000000, and a slot is recorded only when its domain
  has at most that many words. On the instance \<open>huge\<close>, whose only slot is unassigned and has
  10000000001 candidate words, the method returns \<^verbatim>\<open>None\<close> and not the slot, and \<^verbatim>\<open>solve\<close>
  raises instead of returning one of the words. (Whenever some unassigned slot has at most
  10000000000 candidates, the method does return an unassigned slot of least domain size and,
  among those, of greatest degree: \<open>select_unassigned_variable_spec\<close>.)
\<close>

theorem select_unassigned_variable_beyond_sentinel:
  "\<not> assignment_complete huge [] \<and>
   select_unassigned_variable huge (CrosswordCreator huge) [] = Some None \<and>
   solve huge (CrosswordCreator huge) = None"
proof -
  have "\<not> assignment_complete huge []"
    by (simp add: assignment_complete_def huge_def dict_contains_def)
  moreover have "select_unassigned_variable huge (CrosswordCreator huge) [] = Some None"
    by (simp add: select_unassigned_variable_def CrosswordCreator_def huge_def dict_contains_def
          dict_get_def length_huge_vocabulary)
  ultimately show ?thesis using solve_raises_beyond_sentinel by simp
qed

section \<open>The solver after a failed propagation\<close>

lemma ac3_loop_invariant:
  assumes run: "ac3_loop c doms queue = Some r"
    and init: "I doms queue"
    and step: "\<And>doms arc queue doms1 queue1.
        I doms (arc # queue) \<Longrightarrow> ac3_iteration c doms arc queue = Some (Inr (doms1, queue1)) \<Longrightarrow>
        I doms1 queue1"
    and exit_False: "\<And>doms arc queue r.
        I doms (arc # queue) \<Longrightarrow> ac3_iteration c doms arc queue = Some (Inl r) \<Longrightarrow> Q r"
    and exit_True: "\<And>doms. I doms [] \<Longrightarrow> Q (True, doms)"
  shows "Q r"
  using assms
proof (induction c doms queue rule: ac3_loop.induct)
  case (1 c doms)
  from "1.prems"(1) have "r = (True, doms)" by simp
  with "1.prems"(2,5) show ?case by simp
next
  case (2 c doms arc queue)
  from "2.prems"(1) obtain it where it: "ac3_iteration c doms arc queue = Some it"
    by (auto split: option.splits)
  show ?case
  proof (cases it)
    case (Inl r')
    with "2.prems"(1) it have "r' = r" by simp
    with "2.prems"(4)[OF "2.prems"(2)] it Inl show ?thesis by simp
  next
    case (Inr p)
    obtain doms1 queue1 where p: "p = (doms1, queue1)" by (cases p)
    from "2.prems"(3)[OF "2.prems"(2)] it Inr p have "I doms1 queue1" by simp
    moreover from "2.prems"(1) it Inr p have "ac3_loop c doms1 queue1 = Some r" by simp
    ultimately show ?thesis
      using "2.IH"[OF it Inr p[symmetric]] "2.prems"(3,4,5) by blast
  qed
qed

lemma update_keys_present:
  "map_of al k = Some v0 \<Longrightarrow> map fst (AList.update k v al) = map fst al"
  by (induction al) (auto split: if_splits)

lemma revise_words_keys:
  "revise_words x y ov ws doms revised = Some (b, doms') \<Longrightarrow> map fst doms' = map fst doms"
proof (induction ws arbitrary: doms revised)
  case Nil
  then show ?case by simp
next
  case (Cons w ws)
  from Cons.prems obtain dy possible where dy: "dict_get doms y = Some dy"
    and p: "revise_possible w ov dy = Some possible"
    by (auto split: option.splits)
  show ?case
  proof (cases possible)
    case True
    with Cons.prems dy p have "revise_words x y ov ws doms revised = Some (b, doms')" by simp
    from Cons.IH[OF this] show ?thesis .
  next
    case False
    with Cons.prems dy p obtain dx where dx: "map_of doms x = Some dx"
      and r: "revise_words x y ov ws (AList.update x (remove1 w dx) doms) True = Some (b, doms')"
      by (auto split: option.splits if_splits simp: dict_get_def set_remove_def dict_set_def)
    from Cons.IH[OF r] update_keys_present[OF dx] show ?thesis by simp
  qed
qed

lemma revise_keys:
  "revise c doms x y = Some (b, doms') \<Longrightarrow> map fst doms' = map fst doms"
  by (auto simp: revise_def split: option.splits dest: revise_words_keys)

lemma ac3_iteration_keys:
  "ac3_iteration c doms arc queue = Some (Inr (doms', queue')) \<Longrightarrow> map fst doms' = map fst doms"
  "ac3_iteration c doms arc queue = Some (Inl (b, doms')) \<Longrightarrow>
     map fst doms' = map fst doms \<and> b = False \<and> (\<exists>x. dict_get doms' x = Some [])"
  by (auto simp: ac3_iteration_def split: option.splits if_splits prod.splits dest: revise_keys)

lemma ac3_loop_keys:
  assumes "ac3_loop c doms queue = Some (b, doms')"
  shows "map fst doms' = map fst doms \<and> (\<not> b \<longrightarrow> (\<exists>x. dict_get doms' x = Some []))"
proof -
  have "(\<lambda>r. map fst (snd r) = map fst doms \<and> (\<not> fst r \<longrightarrow> (\<exists>x. dict_get (snd r) x = Some []))) (b, doms')"
  proof (rule ac3_loop_invariant[OF assms, where I = "\<lambda>d q. map fst d = map fst doms"], goal_cases)
    case 1 show ?case by simp
  next
    case (2 d arc q d1 q1)
    with ac3_iteration_keys(1)[OF 2(2)] show ?case by simp
  next
    case (3 d arc q r)
    obtain b' d' where r: "r = (b', d')" by (cases r)
    with 3 ac3_iteration_keys(2)[of c d arc q b' d'] show ?case by simp
  next
    case (4 d)
    then show ?case by simp
  qed
  then show ?thesis by simp
qed

lemma enforce_node_consistency_keys:
  "distinct (map fst doms) \<Longrightarrow>
     \<exists>doms1. enforce_node_consistency doms = Some doms1 \<and> map fst doms1 = map fst doms"
  using enforce_node_items_filter[of "[]" doms]
  by (simp add: enforce_node_consistency_def node_filter_def comp_def)

lemma order_domain_values_empty:
  "dict_get doms var = Some [] \<Longrightarrow> order_domain_values c doms var a = Some []"
  by (simp add: order_domain_values_def)


text \<open>
  C1, as stated, fails: \<^verbatim>\<open>solve\<close> drops the result of \<^verbatim>\<open>self.ac3()\<close> and calls \<^verbatim>\<open>backtrack\<close> in any
  case. On the instance \<open>corner\<close> the propagation returns \<^verbatim>\<open>False\<close> and \<^verbatim>\<open>backtrack\<close> has been
  called once when \<^verbatim>\<open>solve\<close> returns.
\<close>

theorem solve_calls_backtrack_after_failed_ac3:
  "enforce_node_consistency (CrosswordCreator corner) =
     Some [(slot_P, [''CAT'', ''DOG'']), (slot_Q, [''CAT'', ''DOG''])] \<and>
   ac3 corner [(slot_P, [''CAT'', ''DOG'']), (slot_Q, [''CAT'', ''DOG''])] None =
     Some (False, [(slot_P, []), (slot_Q, [''CAT'', ''DOG''])]) \<and>
   solve corner (CrosswordCreator corner) =
     Some (None, \<lparr>search_domains = [(slot_P, []), (slot_Q, [''CAT'', ''DOG''])],
                  search_assignment = [], backtrack_calls = 1\<rparr>)"
  by (simp add: solver_defs instance_defs)

text \<open>
  C1, amended. Let the domain store have one entry for each slot of the crossword. If the
  propagation after node consistency returns \<^verbatim>\<open>False\<close>, then \<^verbatim>\<open>solve\<close> returns \<^verbatim>\<open>None\<close>, and
  the search it runs is a single call of \<^verbatim>\<open>backtrack\<close>: the slot selected has an empty domain,
  so no word is tried, nothing is assigned and there is no recursive call.
\<close>

theorem solve_searches_after_failed_ac3:
  assumes "distinct (map fst doms)"
    and "set (map fst doms) = set (variables c)"
    and "enforce_node_consistency doms = Some doms1"
    and "ac3 c doms1 None = Some (False, doms2)"
  shows "solve c doms =
           Some (None, \<lparr>search_domains = doms2, search_assignment = [], backtrack_calls = 1\<rparr>)"
proof -
  from enforce_node_consistency_keys[OF assms(1)] assms(3)
  have k1: "map fst doms1 = map fst doms" by auto
  from assms(4) have "ac3_loop c doms1 (map fst (overlaps c)) = Some (False, doms2)"
    by (simp add: ac3_def)
  from ac3_loop_keys[OF this] k1 obtain x where
    k2: "map fst doms2 = map fst doms" and x: "dict_get doms2 x = Some []" by auto
  have keys: "dict_contains doms2 v \<longleftrightarrow> v \<in> set (variables c)" for v
    using k2 assms(2) by (simp add: dict_contains_keys) (metis set_map)
  from x have xv: "x \<in> set (variables c)"
    using keys[of x] by (simp add: dict_contains_def dict_get_def)
  have d: "\<forall>v \<in> set (variables c). \<not> dict_contains ([]::assignment) v \<longrightarrow> dict_contains doms2 v"
    using keys by simp
  have e: "\<exists>v \<in> set (variables c). \<not> dict_contains ([]::assignment) v \<and> domain_size doms2 v \<le> 10000000000"
    using xv x by (auto simp: dict_contains_def domain_size_def intro!: bexI[of _ x])
  from select_unassigned_variable_spec[OF d e]
obtain var where sel: "select_unassigned_variable c doms2 [] = Some (Some var)"
    and var: "var \<in> set (variables c)"
    and least: "domain_size doms2 var \<le> domain_size doms2 x"
    using xv by (auto simp: dict_contains_def)
  from least x have "domain_size doms2 var = 0" by (simp add: domain_size_def)
  moreover from keys[of var] var obtain d where "dict_get doms2 var = Some d"
    by (auto simp: dict_contains_def dict_get_def)
  ultimately have "dict_get doms2 var = Some []" by (simp add: domain_size_def)
  then have ord: "order_domain_values c doms2 var [] = Some []" by (rule order_domain_values_empty)
  from xv have nc: "\<not> assignment_complete c []"
    by (auto simp: assignment_complete_def list_all_iff dict_contains_def)
  have "backtrack c \<lparr>search_domains = doms2, search_assignment = [], backtrack_calls = 0\<rparr> =
          Some (None, \<lparr>search_domains = doms2, search_assignment = [], backtrack_calls = 1\<rparr>)"
    using nc sel ord by (simp add: backtrack.simps)
  with assms(3,4) show ?thesis by (simp add: solve_def)
qed


theorem solve_searches_after_failed_ac3_witness:
  "solve two_slots [(slot_A, [''CAT'', ''DOG'']), (slot_B, [''TEN''])] =
     Some (None, \<lparr>search_domains = [(slot_A, []), (slot_B, [''TEN''])],
                  search_assignment = [], backtrack_calls = 1\<rparr>)"
proof (rule solve_searches_after_failed_ac3)
  show "distinct (map fst [(slot_A, [''CAT'', ''DOG'']), (slot_B, [''TEN''])])"
    by (simp add: instance_defs)
  show "set (map fst [(slot_A, [''CAT'', ''DOG'']), (slot_B, [''TEN''])]) = set (variables two_slots)"
    by (simp add: instance_defs)
  show "enforce_node_consistency [(slot_A, [''CAT'', ''DOG'']), (slot_B, [''TEN''])] =
          Some [(slot_A, [''CAT'', ''DOG'']), (slot_B, [''TEN''])]"
    by (simp add: solver_defs instance_defs)
  show "ac3 two_slots [(slot_A, [''CAT'', ''DOG'']), (slot_B, [''TEN''])] None =
          Some (False, [(slot_A, []), (slot_B, [''TEN''])])"
    by (simp add: solver_defs instance_defs)
qed


section \<open>Termination of the propagation\<close>

lemma ac3_loop_within: "\<exists>n. ac3_within n c doms queue = Some (ac3_loop c doms queue)"
proof (induction c doms queue rule: ac3_loop.induct)
  case (1 c doms)
  have "ac3_within 0 c doms [] = Some (ac3_loop c doms [])" by simp
  then show ?case ..
next
  case (2 c doms arc queue)
  show ?case
  proof (cases "ac3_iteration c doms arc queue")
    case None
    then have "ac3_within (Suc 0) c doms (arc # queue) = Some (ac3_loop c doms (arc # queue))" by simp
    then show ?thesis ..
  next
    case (Some it)
    show ?thesis
    proof (cases it)
      case (Inl r)
      with Some have "ac3_within (Suc 0) c doms (arc # queue) = Some (ac3_loop c doms (arc # queue))"
        by simp
      then show ?thesis ..
    next
      case (Inr p)
      obtain doms' queue' where p: "p = (doms', queue')" by (cases p)
      from "2.IH"[OF Some Inr p[symmetric]] obtain n where
        "ac3_within n c doms' queue' = Some (ac3_loop c doms' queue')" ..
      with Some Inr p
      have "ac3_within (Suc n) c doms (arc # queue) = Some (ac3_loop c doms (arc # queue))" by simp
      then show ?thesis ..
    qed
  qed
qed


text \<open>
  C9, as stated, fails: the loop need not reach an empty worklist. On the instance \<open>corner\<close> the
  worklist starts with the two arcs of the crossword, and the first iteration empties the domain
  of \<open>slot_P\<close> and is a \<^verbatim>\<open>return False\<close>, with the second arc still in the worklist.
\<close>

theorem ac3_returns_with_pending_arcs:
  "map fst (overlaps corner) = [(slot_P, slot_Q), (slot_Q, slot_P)] \<and>
   ac3_iteration corner [(slot_P, [''CAT'', ''DOG'']), (slot_Q, [''CAT'', ''DOG''])]
       (slot_P, slot_Q) [(slot_Q, slot_P)] =
     Some (Inl (False, [(slot_P, []), (slot_Q, [''CAT'', ''DOG''])])) \<and>
   ac3 corner [(slot_P, [''CAT'', ''DOG'']), (slot_Q, [''CAT'', ''DOG''])] None =
     Some (False, [(slot_P, []), (slot_Q, [''CAT'', ''DOG''])])"
  by (simp add: solver_defs instance_defs)


text \<open>
  C9, amended. For every crossword, every domain store and every initial arc list (or the
  default one), the loop of \<^verbatim>\<open>ac3\<close> ends after finitely many iterations: on an empty worklist,
  with \<^verbatim>\<open>True\<close>, or before that in the iteration whose revision empties a domain, with
  \<^verbatim>\<open>False\<close>, or with the exception that a lookup in that iteration raises. The number \<open>n\<close> of
  iterations bounds the run, and what the run ends with is what \<^verbatim>\<open>ac3\<close> returns.
\<close>

theorem ac3_ends_after_finitely_many_iterations:
  "\<exists>n. ac3_within n c doms (case arcs of None \<Rightarrow> map fst (overlaps c) | Some given \<Rightarrow> given)
         = Some (ac3 c doms arcs)"
proof (cases arcs)
  case None
  with ac3_loop_within[of c doms "map fst (overlaps c)"] show ?thesis by (simp add: ac3_def)
next
  case (Some given)
  with ac3_loop_within[of c doms given] show ?thesis by (simp add: ac3_def)
qed



section \<open>The fixed point of the propagation\<close>

lemma arc_ok_case:
  "arc_ok c (map_of doms) x y =
     (case dict_get (overlaps c) (x, y) of
        Some (Some (i, j)) \<Rightarrow>
          (case (dict_get doms x, dict_get doms y) of
             (Some dx, Some dy) \<Rightarrow> \<forall>w \<in> set dx. \<exists>u \<in> set dy. w ! i = u ! j
           | _ \<Rightarrow> False)
      | _ \<Rightarrow> True)"
proof (cases "map_of (overlaps c) (x, y)")
  case None
  then show ?thesis by (simp add: arc_ok_def dict_get_def)
next
  case (Some ov)
  show ?thesis
  proof (cases ov)
    case None
    with Some show ?thesis by (simp add: arc_ok_def dict_get_def)
  next
    case (Some p)
    obtain i j where "p = (i, j)" by (cases p)
    with Some \<open>map_of (overlaps c) (x, y) = Some ov\<close> show ?thesis
      by (cases "map_of doms x"; cases "map_of doms y") (simp_all add: arc_ok_def dict_get_def)
  qed
qed

lemma arc_consistent_arc_ok:
  "arc_consistent c doms \<longleftrightarrow> (\<forall>(x, y) \<in> set (map fst (overlaps c)). arc_ok c (map_of doms) x y)"
  unfolding arc_consistent_def by (simp only: arc_ok_case)

lemma wf_crossword_key:
  assumes "wf_crossword c" and "(x, y) \<in> set (map fst (overlaps c))"
  shows "x \<in> set (variables c)" "y \<in> set (variables c)" "x \<noteq> y"
  using assms unfolding wf_crossword_def by auto

lemma wf_crossword_overlap:
  assumes "wf_crossword c" and "map_of (overlaps c) (x, y) = Some (Some (i, j))"
  shows "i < var_length x" "j < var_length y" "map_of (overlaps c) (y, x) = Some (Some (j, i))"
    "(x, y) \<in> set (map fst (overlaps c))"
proof -
  from assms(2) have k: "(x, y) \<in> set (map fst (overlaps c))"
    by (metis map_of_eq_None_iff option.distinct(1) set_map)
  with assms show "i < var_length x" "j < var_length y" "map_of (overlaps c) (y, x) = Some (Some (j, i))"
    unfolding wf_crossword_def dict_get_def by (auto split: option.splits)
  from k show "(x, y) \<in> set (map fst (overlaps c))" .
qed

lemma node_consistent_node_ok:
  "node_consistent doms \<Longrightarrow> node_ok (map_of doms)"
  unfolding node_consistent_def node_ok_def by (auto dest: map_of_SomeD)

lemma revise_overlap:
  assumes "x \<noteq> y" "map_of doms x = Some dx" "map_of doms y = Some dy"
    and "map_of (overlaps c) (x, y) = Some (Some (i, j))"
    and "\<forall>w \<in> set dx. i < length w" "\<forall>u \<in> set dy. j < length u"
  shows "revise c doms x y =
           Some (\<exists>w \<in> set dx. \<not> (\<exists>u \<in> set dy. w ! i = u ! j),
                 AList.update x (filter (\<lambda>w. \<exists>u \<in> set dy. w ! i = u ! j) dx) doms)"
proof -
  have "revise_words x y (i, j) dx doms False =
          Some (False \<or> (\<exists>w \<in> set dx. \<not> (\<exists>u \<in> set dy. w ! fst (i, j) = u ! snd (i, j))),
                AList.update x ([] @ filter (\<lambda>w. \<exists>u \<in> set dy. w ! fst (i, j) = u ! snd (i, j)) dx) doms)"
    using assms by (intro revise_words_exact) simp_all
  with assms(2,4) show ?thesis by (simp add: revise_def dict_get_def)
qed

text \<open>What one revision does to a store that is keyed by the slots and node consistent.\<close>

lemma revise_on_store:
  assumes wf: "wf_crossword c" and keys: "map fst doms = variables c" and nc: "node_ok (map_of doms)"
    and arc: "(x, y) \<in> set (map fst (overlaps c))"
  obtains (none) "map_of (overlaps c) (x, y) = Some None" "revise c doms x y = Some (False, doms)"
  | (some) i j dx dy where "map_of (overlaps c) (x, y) = Some (Some (i, j))"
      "map_of doms x = Some dx" "map_of doms y = Some dy" "x \<noteq> y"
      "revise c doms x y =
         Some (\<exists>w \<in> set dx. \<not> (\<exists>u \<in> set dy. w ! i = u ! j),
               AList.update x (filter (\<lambda>w. \<exists>u \<in> set dy. w ! i = u ! j) dx) doms)"
proof -
  from wf_crossword_key[OF wf arc] have xv: "x \<in> set (variables c)" and yv: "y \<in> set (variables c)"
    and ne: "x \<noteq> y" by auto
  from arc obtain ov where ov: "map_of (overlaps c) (x, y) = Some ov"
    by (metis map_of_eq_None_iff not_Some_eq set_map)
  show thesis
  proof (cases ov)
    case None
    with ov have "revise c doms x y = Some (False, doms)" by (simp add: revise_def dict_get_def)
    with none ov None show thesis by simp
  next
    case (Some p)
    obtain i j where p: "p = (i, j)" by (cases p)
    from xv keys obtain dx where dx: "map_of doms x = Some dx"
      by (metis map_of_eq_None_iff not_Some_eq set_map)
    from yv keys obtain dy where dy: "map_of doms y = Some dy"
      by (metis map_of_eq_None_iff not_Some_eq set_map)
    from ov Some p have o: "map_of (overlaps c) (x, y) = Some (Some (i, j))" by simp
    from wf_crossword_overlap(1,2)[OF wf o] nc dx dy
    have "\<forall>w \<in> set dx. i < length w" "\<forall>u \<in> set dy. j < length u"
      by (auto simp: node_ok_def)
    from revise_overlap[OF ne dx dy o this] some[OF o dx dy ne] show thesis by blast
  qed
qed


lemma arc_ok_after_revise:
  assumes wf: "wf_crossword c"
    and o: "map_of (overlaps c) (x, y) = Some (Some (i, j))"
    and ne: "x \<noteq> y" and dx: "m x = Some dx" and dy: "m y = Some dy"
    and pq: "p \<noteq> q"
    and pre: "(p, q) = (x, y) \<or> arc_ok c m p q"
    and fresh: "\<And>i' j'. map_of (overlaps c) (p, q) = Some (Some (i', j')) \<Longrightarrow> q = x \<Longrightarrow> p = y"
  shows "arc_ok c (m(x \<mapsto> filter (\<lambda>w. \<exists>u \<in> set dy. w ! i = u ! j) dx)) p q"
  unfolding arc_ok_def
proof (intro allI impI)
  fix i' j'
  assume opq: "map_of (overlaps c) (p, q) = Some (Some (i', j'))"
  let ?dx' = "filter (\<lambda>w. \<exists>u \<in> set dy. w ! i = u ! j) dx"
  let ?m = "m(x \<mapsto> ?dx')"
  show "\<exists>dp dq. ?m p = Some dp \<and> ?m q = Some dq \<and> (\<forall>w \<in> set dp. \<exists>u \<in> set dq. w ! i' = u ! j')"
  proof (cases "(p, q) = (x, y)")
    case True
    with opq o have "i' = i" "j' = j" by simp_all
    with True ne dy show ?thesis by auto
  next
    case False
    with pre have "arc_ok c m p q" by auto
    with opq obtain dp dq where dp: "m p = Some dp" and dq: "m q = Some dq"
      and sup: "\<forall>w \<in> set dp. \<exists>u \<in> set dq. w ! i' = u ! j'"
      unfolding arc_ok_def by blast
    show ?thesis
    proof (cases "q = x")
      case True
      with fresh[OF opq] have py: "p = y" by simp
      from wf_crossword_overlap(3)[OF wf o] opq True py have ij: "i' = j" "j' = i" by simp_all
      from dp py dy have "dp = dy" by simp
      moreover from dq True dx have "dq = dx" by simp
      ultimately have "\<forall>u \<in> set dy. \<exists>w \<in> set ?dx'. u ! i' = w ! j'"
        using sup ij by (auto, metis)
      with py True ne dy show ?thesis by auto
    next
      case qx: False
      show ?thesis
      proof (cases "p = x")
        case True
        with dp dx have "dp = dx" by simp
        with sup have "\<forall>w \<in> set ?dx'. \<exists>u \<in> set dq. w ! i' = u ! j'" by auto
        with True qx dq show ?thesis by auto
      next
        case False
        with qx dp dq sup show ?thesis by auto
      qed
    qed
  qed
qed

lemma neighbors_iff:
  "n \<in> set (neighbors c x) \<longleftrightarrow>
     n \<in> set (variables c) \<and> n \<noteq> x \<and> (\<exists>p. map_of (overlaps c) (n, x) = Some (Some p))"
  by (auto simp: neighbors_def split: option.splits)

lemma ac3_inv_step:
  assumes wf: "wf_crossword c"
    and inv: "ac3_inv c doms (arc # queue)"
    and it: "ac3_iteration c doms arc queue = Some (Inr (doms1, queue1))"
  shows "ac3_inv c doms1 queue1"
proof -
  obtain x y where arc: "arc = (x, y)" by (cases arc)
  from inv have keys: "map fst doms = variables c" and nc: "node_ok (map_of doms)"
    and qk: "set queue \<subseteq> set (map fst (overlaps c))"
    and ak: "(x, y) \<in> set (map fst (overlaps c))"
    and arcs: "\<And>p q. (p, q) \<in> set (map fst (overlaps c)) \<Longrightarrow>
                 (p, q) = (x, y) \<or> (p, q) \<in> set queue \<or> arc_ok c (map_of doms) p q"
    unfolding ac3_inv_def arc by auto
  from wf keys nc ak show ?thesis
  proof (cases rule: revise_on_store)
    case none
    with it arc have eq: "doms1 = doms" "queue1 = queue" by (simp_all add: ac3_iteration_def)
    have "arc_ok c (map_of doms) x y" using none(1) by (simp add: arc_ok_def)
    with arcs keys nc qk show ?thesis unfolding ac3_inv_def eq by blast
  next
    case (some i j dx dy)
    let ?supp = "\<lambda>w. \<exists>u \<in> set dy. w ! i = u ! j"
    let ?dx' = "filter ?supp dx"
    show ?thesis
    proof (cases "\<exists>w \<in> set dx. \<not> ?supp w")
      case False
      then have "?dx' = dx" by (simp add: filter_id_conv)
      with some(2) have same: "AList.update x ?dx' doms = doms" by (simp add: update_triv)
      from False have "(\<exists>w \<in> set dx. \<not> ?supp w) = False" by blast
      with some(5) same have "revise c doms x y = Some (False, doms)" by (simp only:)
      with it arc have eq: "doms1 = doms" "queue1 = queue"
        by (simp_all add: ac3_iteration_def)
      from False some(1-3) have "arc_ok c (map_of doms) x y" by (auto simp: arc_ok_def)
      with arcs keys nc qk show ?thesis unfolding ac3_inv_def eq by blast
    next
      case True
      have look: "dict_get (AList.update x ?dx' doms) x = Some ?dx'"
        by (simp add: dict_get_def update_conv')
      from True have "(\<exists>w \<in> set dx. \<not> ?supp w) = True" by blast
      with some(5) have "revise c doms x y = Some (True, AList.update x ?dx' doms)" by (simp only:)
      with it arc look
      have d1: "doms1 = AList.update x ?dx' doms"
        and q1: "queue1 = queue @ map (\<lambda>n. (n, x)) (filter (\<lambda>n. n \<noteq> y) (neighbors c x))"
        by (auto simp: ac3_iteration_def split: if_splits)
      have m1: "map_of doms1 = (map_of doms)(x \<mapsto> ?dx')" by (simp add: d1 update_conv')
      have k1: "map fst doms1 = variables c"
        using update_keys_present[OF some(2)] keys by (simp add: d1)
      have n1: "node_ok (map_of doms1)"
        using nc some(2) unfolding m1 node_ok_def by auto
      have qk1: "set queue1 \<subseteq> set (map fst (overlaps c))"
      proof -
        have "(n, x) \<in> set (map fst (overlaps c))" if "n \<in> set (neighbors c x)" for n
          using that wf_crossword_overlap(4)[OF wf] by (auto simp: neighbors_iff)
        with qk show ?thesis unfolding q1 by auto
      qed
      have a1: "(p, q) \<in> set queue1 \<or> arc_ok c (map_of doms1) p q"
        if key: "(p, q) \<in> set (map fst (overlaps c))" for p q
      proof (cases "(p, q) \<in> set queue1")
        case True
        then show ?thesis ..
      next
        case nq: False
        then have "(p, q) \<notin> set queue" unfolding q1 by simp
        with arcs[OF key] have pre: "(p, q) = (x, y) \<or> arc_ok c (map_of doms) p q" by blast
        from wf_crossword_key[OF wf key] have pv: "p \<in> set (variables c)" and pq: "p \<noteq> q" by auto
        have fresh: "p = y" if "map_of (overlaps c) (p, q) = Some (Some (i', j'))" "q = x" for i' j'
        proof (rule ccontr)
          assume "p \<noteq> y"
          with that pv pq have "p \<in> set (filter (\<lambda>n. n \<noteq> y) (neighbors c x))"
            by (auto simp: neighbors_iff)
          with that(2) have "(p, q) \<in> set queue1" unfolding q1 by auto
          with nq show False ..
        qed
        have "arc_ok c ((map_of doms)(x \<mapsto> ?dx')) p q"
          using wf some(1) some(4) some(2) some(3) pq pre fresh by (rule arc_ok_after_revise)
        then show ?thesis by (simp add: m1)
      qed
      from k1 n1 qk1 a1 show ?thesis unfolding ac3_inv_def by blast
    qed
  qed
qed


text \<open>
  C4. Let the crossword be well formed, and let the store have one domain for each slot, all of
  whose words have the slot's length (the state after node consistency). If \<^verbatim>\<open>ac3\<close>, started
  with the default arc set, returns \<^verbatim>\<open>True\<close>, then in the store it leaves, for every ordered pair
  of slots \<open>(x, y)\<close> with an overlap \<open>(i, j)\<close> and every word \<open>w\<close> of the domain of \<open>x\<close>, some word
  \<open>u\<close> of the domain of \<open>y\<close> has \<open>w[i] = u[j]\<close>.
\<close>

theorem ac3_success_is_arc_consistent:
  assumes "wf_crossword c"
    and "map fst doms = variables c"
    and "node_consistent doms"
    and "ac3 c doms None = Some (True, doms')"
  shows "arc_consistent c doms'"
proof -
  from assms(4) have run: "ac3_loop c doms (map fst (overlaps c)) = Some (True, doms')"
    by (simp add: ac3_def)
  have "\<forall>(p, q) \<in> set (map fst (overlaps c)).
          (p, q) \<in> set (map fst (overlaps c)) \<or> arc_ok c (map_of doms) p q"
    by blast
  with assms(2,3) have init: "ac3_inv c doms (map fst (overlaps c))"
    unfolding ac3_inv_def by (simp only: node_consistent_node_ok subset_refl simp_thms)
  have "(\<lambda>r. fst r \<longrightarrow> arc_consistent c (snd r)) (True, doms')"
    using run init
  proof (rule ac3_loop_invariant)
    fix d arc q d1 q1
    assume "ac3_inv c d (arc # q)" "ac3_iteration c d arc q = Some (Inr (d1, q1))"
    with assms(1) show "ac3_inv c d1 q1" by (rule ac3_inv_step)
  next
    fix d arc q r
    assume "ac3_iteration c d arc q = Some (Inl r)"
    with ac3_iteration_keys(2)[of c d arc q "fst r" "snd r"]
    show "fst r \<longrightarrow> arc_consistent c (snd r)" by simp
  next
    fix d
    assume "ac3_inv c d []"
    then show "fst (True, d) \<longrightarrow> arc_consistent c (snd (True, d))"
      by (auto simp: ac3_inv_def arc_consistent_arc_ok)
  qed
  then show ?thesis by simp
qed


theorem ac3_success_is_arc_consistent_witness:
  "ac3 two_slots [(slot_A, [''CAT'', ''DOG'', ''TEN'']), (slot_B, [''TAN'', ''TEN''])] None =
     Some (True, [(slot_A, [''CAT'', ''TEN'']), (slot_B, [''TAN'', ''TEN''])]) \<and>
   arc_consistent two_slots [(slot_A, [''CAT'', ''TEN'']), (slot_B, [''TAN'', ''TEN''])]"
proof -
  have wf: "wf_crossword two_slots"
    by (simp add: wf_crossword_def dict_get_def instance_defs)
  have keys: "map fst [(slot_A, [''CAT'', ''DOG'', ''TEN'']), (slot_B, [''TAN'', ''TEN''])] =
                variables two_slots"
    by (simp add: instance_defs)
  have nc: "node_consistent [(slot_A, [''CAT'', ''DOG'', ''TEN'']), (slot_B, [''TAN'', ''TEN''])]"
    by (simp add: node_consistent_def instance_defs)
  have run: "ac3 two_slots [(slot_A, [''CAT'', ''DOG'', ''TEN'']), (slot_B, [''TAN'', ''TEN''])] None =
               Some (True, [(slot_A, [''CAT'', ''TEN'']), (slot_B, [''TAN'', ''TEN''])])"
    by (simp add: solver_defs instance_defs)
  from run ac3_success_is_arc_consistent[OF wf keys nc run] show ?thesis by simp
qed


section \<open>Completeness of the solver\<close>

lemma solution_length:
  "solution c m \<Longrightarrow> v \<in> set (variables c) \<Longrightarrow> m v = Some w \<Longrightarrow> length w = var_length v"
  unfolding solution_def globally_consistent_def by (auto split: option.splits)

lemma solution_pair:
  assumes "solution c m" "x \<in> set (variables c)" "y \<in> set (variables c)" "x \<noteq> y"
    and "m x = Some w" "m y = Some u"
  shows "w \<noteq> u" and "map_of (overlaps c) (x, y) = Some (Some (i, j)) \<Longrightarrow> w ! i = u ! j"
proof -
  from assms have "w \<noteq> u \<and> agree c x w y u"
    unfolding solution_def globally_consistent_def by fastforce
  then show "w \<noteq> u" and "map_of (overlaps c) (x, y) = Some (Some (i, j)) \<Longrightarrow> w ! i = u ! j"
    by (auto simp: agree_def)
qed

lemma map_of_constant:
  "v \<in> set vs \<Longrightarrow> map_of (map (\<lambda>x. (x, f x)) vs) v = Some (f v)"
  by (induction vs) auto

lemma within_CrosswordCreator:
  assumes "solution c m"
  shows "within c m (CrosswordCreator c)"
  unfolding within_def
proof
  fix v assume v: "v \<in> set (variables c)"
  with assms obtain w where w: "m v = Some w" "w \<in> set (words c)"
    unfolding solution_def complete_def by (auto split: option.splits)
  from v have "map_of (CrosswordCreator c) v = Some (words c)"
    unfolding CrosswordCreator_def by (rule map_of_constant)
  with w show "\<exists>w d. m v = Some w \<and> map_of (CrosswordCreator c) v = Some d \<and> w \<in> set d" by simp
qed

lemma map_of_node_filter:
  "map_of (map node_filter doms) v = map_option (filter (\<lambda>w. length w = var_length v)) (map_of doms v)"
  by (induction doms) (auto simp: node_filter_def)

lemma within_node_consistency:
  assumes sol: "solution c m" and w: "within c m doms"
  shows "within c m (map node_filter doms)"
  unfolding within_def
proof
  fix v assume v: "v \<in> set (variables c)"
  with w obtain x d where x: "m v = Some x" "map_of doms v = Some d" "x \<in> set d"
    unfolding within_def by blast
  from solution_length[OF sol v x(1)] x
  show "\<exists>w d. m v = Some w \<and> map_of (map node_filter doms) v = Some d \<and> w \<in> set d"
    by (simp add: map_of_node_filter)
qed

lemma node_consistent_node_filter: "node_consistent (map node_filter doms)"
  unfolding node_consistent_def by (auto simp: node_filter_def)

lemma within_revise:
  assumes wf: "wf_crossword c" and keys: "map fst doms = variables c" and nc: "node_ok (map_of doms)"
    and arc: "(x, y) \<in> set (map fst (overlaps c))"
    and sol: "solution c m" and w: "within c m doms"
    and rev: "revise c doms x y = Some (b, doms')"
  shows "within c m doms'"
  using wf keys nc arc
proof (cases rule: revise_on_store)
  case none
  with rev w show ?thesis by simp
next
  case (some i j dx dy)
  from wf_crossword_key[OF wf arc] have xv: "x \<in> set (variables c)" and yv: "y \<in> set (variables c)"
    by auto
  from w xv some(2) obtain wx where wx: "m x = Some wx" "wx \<in> set dx" unfolding within_def by fastforce
  from w yv some(3) obtain wy where wy: "m y = Some wy" "wy \<in> set dy" unfolding within_def by fastforce
  from solution_pair(2)[OF sol xv yv some(4) wx(1) wy(1) some(1)] have "wx ! i = wy ! j" .
  with wy(2) wx(2) have keep: "wx \<in> set (filter (\<lambda>w. \<exists>u \<in> set dy. w ! i = u ! j) dx)" by auto
  from rev some(5) have d': "map_of doms' = (map_of doms)(x \<mapsto> filter (\<lambda>w. \<exists>u \<in> set dy. w ! i = u ! j) dx)"
    by (auto simp: update_conv')
  show ?thesis
    unfolding within_def d'
  proof
    fix v assume v: "v \<in> set (variables c)"
    with w obtain z d where z: "m v = Some z" "map_of doms v = Some d" "z \<in> set d"
      unfolding within_def by blast
    show "\<exists>w d. m v = Some w \<and>
            ((map_of doms)(x \<mapsto> filter (\<lambda>w. \<exists>u \<in> set dy. w ! i = u ! j) dx)) v = Some d \<and> w \<in> set d"
    proof (cases "v = x")
      case True
      with wx keep show ?thesis by simp
    next
      case False
      with z show ?thesis by simp
    qed
  qed
qed

lemma within_ac3_iteration:
  assumes wf: "wf_crossword c" and inv: "ac3_inv c doms (arc # queue)"
    and sol: "solution c m" and w: "within c m doms"
  shows "ac3_iteration c doms arc queue = Some (Inr (doms1, queue1)) \<Longrightarrow> within c m doms1"
    and "ac3_iteration c doms arc queue = Some (Inl (b, doms2)) \<Longrightarrow> within c m doms2"
proof -
  from inv have keys: "map fst doms = variables c" and nc: "node_ok (map_of doms)"
    and ak: "(fst arc, snd arc) \<in> set (map fst (overlaps c))"
    unfolding ac3_inv_def by auto
  have r: "within c m d" if "revise c doms (fst arc) (snd arc) = Some (b', d)" for b' d
    using within_revise[OF wf keys nc ak sol w that] .
  show "ac3_iteration c doms arc queue = Some (Inr (doms1, queue1)) \<Longrightarrow> within c m doms1"
    by (auto simp: ac3_iteration_def split: option.splits if_splits prod.splits dest: r)
  show "ac3_iteration c doms arc queue = Some (Inl (b, doms2)) \<Longrightarrow> within c m doms2"
    by (auto simp: ac3_iteration_def split: option.splits if_splits prod.splits dest: r)
qed

lemma within_ac3:
  assumes wf: "wf_crossword c" and keys: "map fst doms = variables c" and nc: "node_consistent doms"
    and sol: "solution c m" and w: "within c m doms"
    and run: "ac3 c doms None = Some (b, doms')"
  shows "within c m doms'"
proof -
  from run have run': "ac3_loop c doms (map fst (overlaps c)) = Some (b, doms')"
    by (simp add: ac3_def)
  have "\<forall>(p, q) \<in> set (map fst (overlaps c)).
          (p, q) \<in> set (map fst (overlaps c)) \<or> arc_ok c (map_of doms) p q"
    by blast
  with keys nc have init: "ac3_inv c doms (map fst (overlaps c))"
    unfolding ac3_inv_def by (simp only: node_consistent_node_ok subset_refl simp_thms)
  have "(\<lambda>r. within c m (snd r)) (b, doms')"
    using run'
  proof (rule ac3_loop_invariant[where I = "\<lambda>d q. ac3_inv c d q \<and> within c m d"])
    show "ac3_inv c doms (map fst (overlaps c)) \<and> within c m doms" using init w ..
  next
    fix d arc q d1 q1
    assume "ac3_inv c d (arc # q) \<and> within c m d" "ac3_iteration c d arc q = Some (Inr (d1, q1))"
    then show "ac3_inv c d1 q1 \<and> within c m d1"
      using ac3_inv_step[OF wf] within_ac3_iteration(1)[OF wf _ sol] by blast
  next
    fix d arc q r
    assume "ac3_inv c d (arc # q) \<and> within c m d" "ac3_iteration c d arc q = Some (Inl r)"
    then show "within c m (snd r)"
      using within_ac3_iteration(2)[OF wf _ sol, of d arc q "fst r" "snd r"] by simp
  next
    fix d
    assume "ac3_inv c d [] \<and> within c m d"
    then show "within c m (snd (True, d))" by simp
  qed
  then show ?thesis by simp
qed


lemma consistent_with_False:
  assumes "consistent_with c var word items = Some False"
  shows "\<exists>(y, u) \<in> set items. var \<noteq> y \<and>
           (word = u \<or> (\<exists>i j. map_of (overlaps c) (var, y) = Some (Some (i, j)) \<and> word ! i \<noteq> u ! j))"
  using assms
proof (induction items)
  case Nil
  then show ?case by simp
next
  case (Cons item items)
  obtain y u where item: "item = (y, u)" by (cases item)
  show ?case
  proof (cases "consistent_with c var word items = Some False")
    case True
    from Cons.IH[OF this] show ?thesis by auto
  next
    case False
    with Cons.prems item have "var \<noteq> y \<and>
           (word = u \<or> (\<exists>i j. map_of (overlaps c) (var, y) = Some (Some (i, j)) \<and> word ! i \<noteq> u ! j))"
      by (auto simp: dict_get_def str_index_def split: option.splits if_splits prod.splits)
    with item show ?thesis by auto
  qed
qed

lemma consistent_items_False:
  assumes "consistent_items c items a = Some False"
  shows "\<exists>(x, w) \<in> set items. length w \<noteq> var_length x \<or> consistent_with c x w a = Some False"
  using assms
proof (induction items)
  case Nil
  then show ?case by simp
next
  case (Cons item items)
  obtain x w where item: "item = (x, w)" by (cases item)
  show ?case
  proof (cases "consistent_items c items a = Some False")
    case True
    from Cons.IH[OF this] show ?thesis by auto
  next
    case False
    with Cons.prems item have "length w \<noteq> var_length x \<or> consistent_with c x w a = Some False"
      by (auto split: option.splits if_splits)
    with item show ?thesis by auto
  qed
qed

lemma consistent_False_no_extension:
  assumes "consistent c a = Some False"
    and keys: "fst ` set a \<subseteq> set (variables c)"
    and sol: "solution c m"
  shows "\<not> extends m a"
proof
  assume ext: "extends m a"
  from consistent_items_False[OF assms(1)[unfolded consistent_def]] obtain x w where
    xw: "(x, w) \<in> set a" and bad: "length w \<noteq> var_length x \<or> consistent_with c x w a = Some False"
    by auto
  from xw keys have xv: "x \<in> set (variables c)" by force
  from xw ext have mx: "m x = Some w" unfolding extends_def by auto
  from solution_length[OF sol xv mx] bad have "consistent_with c x w a = Some False" by simp
  from consistent_with_False[OF this] obtain y u where
    yu: "(y, u) \<in> set a" and ne: "x \<noteq> y"
    and clash: "w = u \<or> (\<exists>i j. map_of (overlaps c) (x, y) = Some (Some (i, j)) \<and> w ! i \<noteq> u ! j)"
    by auto
  from yu keys have yv: "y \<in> set (variables c)" by force
  from yu ext have my: "m y = Some u" unfolding extends_def by auto
  from solution_pair[OF sol xv yv ne mx my] clash show False by blast
qed

lemma order_values_keys:
  "order_values c doms var a ds acc = Some dv \<Longrightarrow> fst ` set dv = fst ` set acc \<union> set ds"
proof (induction ds arbitrary: acc)
  case Nil
  then show ?case by simp
next
  case (Cons d ds)
  from Cons.prems obtain n where
    "order_values c doms var a ds (dict_set acc d n) = Some dv"
    by (auto split: option.splits)
  from Cons.IH[OF this] show ?case by (auto simp: dict_set_def update_key_set)
qed

lemma order_domain_values_set:
  assumes "order_domain_values c doms var a = Some ordered"
  shows "\<exists>d. map_of doms var = Some d \<and> set ordered = set d"
proof -
  from assms obtain d dv where d: "map_of doms var = Some d"
    and dv: "order_values c doms var a d [] = Some dv"
    and o: "ordered = map fst (sort_key snd dv)"
    by (auto simp: order_domain_values_def dict_get_def split: option.splits)
  from order_values_keys[OF dv] have "fst ` set dv = set d" by simp
  with o d show ?thesis by simp
qed

lemma extends_set_fresh:
  "\<not> dict_contains a var \<Longrightarrow> extends m (dict_set a var w) \<longleftrightarrow> extends m a \<and> m var = Some w"
proof -
  assume "\<not> dict_contains a var"
  then have "var \<notin> fst ` set a" by (simp add: dict_contains_keys)
  then have "set (AList.update var w a) = insert (var, w) (set a)"
    by (induction a) auto
  then show ?thesis by (auto simp: extends_def dict_set_def)
qed

lemma backtrack_complete:
  "backtrack c s = Some (None, s') \<Longrightarrow> fst ` set (search_assignment s) \<subseteq> set (variables c) \<Longrightarrow>
     solution c m \<Longrightarrow> within c m (search_domains s) \<Longrightarrow> \<not> extends m (search_assignment s)"
  "backtrack_words c var ws s = Some (None, s'') \<Longrightarrow> var \<in> set (variables c) \<Longrightarrow>
     \<not> dict_contains (search_assignment s) var \<Longrightarrow>
     fst ` set (search_assignment s) \<subseteq> set (variables c) \<Longrightarrow>
     solution c m \<Longrightarrow> within c m (search_domains s) \<Longrightarrow> extends m (search_assignment s) \<Longrightarrow>
     (\<forall>w \<in> set ws. m var \<noteq> Some w)"
proof (induct c s and c var ws s arbitrary: s' and s'' rule: backtrack_backtrack_words.induct)
  case (1 c s)
  from "1.prems"(1) have nc: "\<not> assignment_complete c (search_assignment s)"
    by (auto simp: backtrack.simps split: if_splits)
  with "1.prems"(1) obtain var ordered where
    sel: "select_unassigned_variable c (search_domains s) (search_assignment s) = Some (Some var)"
    and ord: "order_domain_values c (search_domains s) var (search_assignment s) = Some ordered"
    and res: "backtrack_words c var ordered (s\<lparr>backtrack_calls := backtrack_calls s + 1\<rparr>) = Some (None, s')"
    by (auto simp: backtrack.simps split: option.splits)
  from select_unassigned_variable_sound[OF sel]
  have var: "var \<in> set (variables c)" "\<not> dict_contains (search_assignment s) var" by simp_all
  show ?case
  proof
    assume ext: "extends m (search_assignment s)"
    from "1.hyps"[OF nc sel refl ord res] var "1.prems"(2-4) ext
    have no: "\<forall>w \<in> set ordered. m var \<noteq> Some w" by simp
    from order_domain_values_set[OF ord] obtain d where
      d: "map_of (search_domains s) var = Some d" "set ordered = set d" by blast
    from "1.prems"(4) var(1) d(1) obtain w where "m var = Some w" "w \<in> set d"
      unfolding within_def by fastforce
    with no d(2) show False by blast
  qed
next
  case (2 c var s)
  then show ?case by simp
next
  case (3 c var w rest s)
  define s1 where "s1 = s\<lparr>search_assignment := dict_set (search_assignment s) var w\<rparr>"
  note fresh = "3.prems"(3)
  from "3.prems"(1) obtain ok where ok: "consistent c (search_assignment s1) = Some ok"
    by (auto simp: s1_def Let_def split: option.splits)
  have del1: "dict_del (search_assignment s1) var = Some (search_assignment s)"
    using fresh by (simp add: s1_def dict_del_set_fresh)
  have keys1: "fst ` set (search_assignment s1) \<subseteq> set (variables c)"
    using "3.prems"(2,4) by (simp add: s1_def dict_set_def update_key_set)
  have ext1: "extends m (search_assignment s1) \<longleftrightarrow> m var = Some w"
    using "3.prems"(7) fresh by (simp add: s1_def extends_set_fresh)
  show ?case
  proof (cases ok)
    case False
    with "3.prems"(1) ok del1
    have r: "backtrack_words c var rest (s1\<lparr>search_assignment := search_assignment s\<rparr>) = Some (None, s'')"
      by (simp add: s1_def[symmetric] Let_def)
    from "3.hyps"(3)[OF s1_def ok _ del1 r] False "3.prems"(2-7)
    have tl: "\<forall>w \<in> set rest. m var \<noteq> Some w" by (simp add: s1_def)
    from False ok consistent_False_no_extension[OF _ keys1 "3.prems"(5)] ext1
    have "m var \<noteq> Some w" by simp
    with tl show ?thesis by simp
  next
    case True
    with "3.prems"(1) ok obtain s2 where
      b: "backtrack c s1 = Some (None, s2)"
      by (auto simp: s1_def[symmetric] Let_def split: option.splits prod.splits)
    from backtrack_restores(1)[OF b] have eq: "search_assignment s2 = search_assignment s1" .
    from backtrack_keeps_domains(1)[OF b] have deq: "search_domains s2 = search_domains s"
      by (simp add: s1_def)
    from eq del1 have del2: "dict_del (search_assignment s2) var = Some (search_assignment s)" by simp
    with "3.prems"(1) ok True b
    have r: "backtrack_words c var rest (s2\<lparr>search_assignment := search_assignment s\<rparr>) = Some (None, s'')"
      by (simp add: s1_def[symmetric] Let_def)
    from "3.hyps"(2)[OF s1_def ok True b refl refl del2 r] "3.prems"(2-7) deq
    have tl: "\<forall>w \<in> set rest. m var \<noteq> Some w" by simp
    from "3.hyps"(1)[OF s1_def ok True b keys1 "3.prems"(5)] "3.prems"(6) ext1
    have "m var \<noteq> Some w" by (simp add: s1_def)
    with tl show ?thesis by simp
  qed
qed


text \<open>
  C3. For every well-formed crossword: if \<^verbatim>\<open>solve\<close>, run on the creator's initial domains, returns
  \<^verbatim>\<open>None\<close>, then no assignment gives every slot a word of the vocabulary such that each word has
  the length of its slot, no two different slots have the same word, and the words of every
  overlapping pair agree at the overlap offsets.
\<close>

theorem solve_failure_means_no_solution:
  assumes wf: "wf_crossword c"
    and run: "solve c (CrosswordCreator c) = Some (None, s)"
  shows "\<not> (\<exists>m. solution c m)"
proof
  assume "\<exists>m. solution c m"
  then obtain m where sol: "solution c m" ..
  from wf have dist: "distinct (variables c)" by (simp add: wf_crossword_def)
  have keys0: "map fst (CrosswordCreator c) = variables c"
    by (simp add: CrosswordCreator_def comp_def)
  with dist have "distinct (map fst ([] @ CrosswordCreator c))" by simp
  from enforce_node_items_filter[OF this]
  have enc: "enforce_node_consistency (CrosswordCreator c) = Some (map node_filter (CrosswordCreator c))"
    by (simp add: enforce_node_consistency_def)
  let ?d1 = "map node_filter (CrosswordCreator c)"
  have keys1: "map fst ?d1 = variables c"
    using keys0 by (simp add: node_filter_def comp_def)
  have w1: "within c m ?d1"
    using sol within_CrosswordCreator[OF sol] by (rule within_node_consistency)
  from run enc obtain ok doms2 where ac: "ac3 c ?d1 None = Some (ok, doms2)"
    and bt: "backtrack c \<lparr>search_domains = doms2, search_assignment = [], backtrack_calls = 0\<rparr> = Some (None, s)"
    by (auto simp: solve_def split: option.splits prod.splits)
  from within_ac3[OF wf keys1 node_consistent_node_filter sol w1 ac] have w2: "within c m doms2" .
  from backtrack_complete(1)[OF bt _ sol] w2 show False by (simp add: extends_def)
qed


theorem solve_failure_means_no_solution_witness:
  "solve corner (CrosswordCreator corner) =
     Some (None, \<lparr>search_domains = [(slot_P, []), (slot_Q, [''CAT'', ''DOG''])],
                  search_assignment = [], backtrack_calls = 1\<rparr>) \<and>
   \<not> (\<exists>m. solution corner m)"
proof -
  have wf: "wf_crossword corner"
    by (simp add: wf_crossword_def dict_get_def instance_defs)
  have run: "solve corner (CrosswordCreator corner) =
     Some (None, \<lparr>search_domains = [(slot_P, []), (slot_Q, [''CAT'', ''DOG''])],
                  search_assignment = [], backtrack_calls = 1\<rparr>)"
    by (simp add: solver_defs instance_defs)
  from run solve_failure_means_no_solution[OF wf run] show ?thesis by simp
qed

end
